theory Spec2Isabelle
  imports Complex_Main "HOL-Library.Sublist" "HOL-Library.Multiset"
begin

section \<open>Strings and Python primitives\<close>

text \<open>
  Python strings are modelled as \<open>string\<close>; \<open>str.lower\<close> and \<open>str.strip\<close> are
  modelled on ASCII, where they act character by character.
\<close>

datatype error =
    IndexError
  | KeyError
  | ValueError
  | AttributeError
  | PermissionError
  | OSError
  | FileNotFoundError
  | IndexNotFound
  | FaissReadError
  | EmbeddingError

definition char_lower :: "char \<Rightarrow> char" where
  "char_lower c =
     (let n = (of_char c :: nat) in if 65 \<le> n \<and> n \<le> 90 then char_of (n + 32) else c)"

definition lower :: "string \<Rightarrow> string" where
  "lower s = map char_lower s"

definition is_space :: "char \<Rightarrow> bool" where
  "is_space c = (let n = (of_char c :: nat) in (9 \<le> n \<and> n \<le> 13) \<or> (28 \<le> n \<and> n \<le> 32))"

definition strip :: "string \<Rightarrow> string" where
  "strip s = rev (dropWhile is_space (rev (dropWhile is_space s)))"

text \<open>\<open>c in txt\<close> on strings: \<open>c\<close> occurs in \<open>txt\<close> as a contiguous substring.\<close>

fun py_in :: "string \<Rightarrow> string \<Rightarrow> bool" where
  "py_in c [] = (c = [])"
| "py_in c (x # xs) = (prefix c (x # xs) \<or> py_in c xs)"

text \<open>\<open>str(n)\<close> for a natural number and for an integer.\<close>

definition digit :: "nat \<Rightarrow> char" where
  "digit n = char_of (48 + n)"

fun str_nat :: "nat \<Rightarrow> string" where
  "str_nat n = (if n < 10 then [digit n] else str_nat (n div 10) @ [digit (n mod 10)])"

declare str_nat.simps [simp del]

definition str_int :: "int \<Rightarrow> string" where
  "str_int i = (if i < 0 then CHR ''-'' # str_nat (nat (- i)) else str_nat (nat i))"

text \<open>\<open>sep.join(xs)\<close>.\<close>

fun join :: "string \<Rightarrow> string list \<Rightarrow> string" where
  "join sep [] = []"
| "join sep [x] = x"
| "join sep (x # y # ys) = x @ sep @ join sep (y # ys)"

text \<open>
  \<open>xs[i]\<close> on a Python list: \<open>py_pos\<close> is the offset an integer index addresses
  (\<open>-1\<close> is the last element, \<open>-len(xs)\<close> the first), or \<open>IndexError\<close> outside
  \<open>-len(xs) .. len(xs) - 1\<close>; \<open>py_nth\<close> is the element there.
\<close>

definition py_pos :: "'a list \<Rightarrow> int \<Rightarrow> error + nat" where
  "py_pos xs i =
     (if 0 \<le> i \<and> i < int (length xs) then Inr (nat i)
      else if i < 0 \<and> - int (length xs) \<le> i then Inr (nat (int (length xs) + i))
      else Inl IndexError)"

definition py_nth :: "'a list \<Rightarrow> int \<Rightarrow> error + 'a" where
  "py_nth xs i = (case py_pos xs i of Inl e \<Rightarrow> Inl e | Inr k \<Rightarrow> Inr (xs ! k))"

text \<open>\<open>xs.index(x)\<close>: the first position holding a value equal to \<open>x\<close>.\<close>

fun py_index :: "'a list \<Rightarrow> 'a \<Rightarrow> error + nat" where
  "py_index [] x = Inl ValueError"
| "py_index (y # ys) x =
     (if y = x then Inr 0
      else (case py_index ys x of Inl e \<Rightarrow> Inl e | Inr k \<Rightarrow> Inr (Suc k)))"

section \<open>Data model (app/models/schemas.py)\<close>

record IssueEvidence =
  ref_id :: string
  snippet :: string
  source_url :: "string option"

record IssueItem =
  document :: string
  section_label :: string
  issue :: string
  severity :: string
  evidence :: "IssueEvidence list"
  suggestion :: "string option"
  source_filename :: "string option"
  category :: "string option"
  groundedness :: "real option"
  suggestion_long :: "string option"

text \<open>
  The document as python-docx presents it to the annotator: the body paragraphs in order
  and the comments element. A paragraph carries its text, whether its runs are
  highlighted, its style, and the ids of the comment ranges anchored at it.
  \<open>comments_part\<close> is what \<open>_get_comments_part\<close> yields for the document:
  \<open>None\<close> when the comments part can neither be found nor created, otherwise the
  \<open>w:comment\<close> elements of the part.
\<close>

datatype pstyle = Normal | Heading nat | PageBreak

record para =
  p_text :: string
  p_style :: pstyle
  p_highlight :: bool
  p_comment_ranges :: "int list"

text \<open>
  The \<open>w:id\<close> attribute of a stored comment, by what \<open>c.get(qn("w:id"))\<close> and
  \<open>int(cid)\<close> make of it: absent, an integer, or a text \<open>int\<close> rejects.
  A comment written by the annotator carries \<open>str(next_id)\<close>, which reads back as
  \<open>next_id\<close>.
\<close>

datatype wid = NoId | IntId int | BadId

record wcomment =
  c_id :: wid
  c_author :: string
  c_initials :: string
  c_body :: string

record docx =
  paragraphs :: "para list"
  comments_part :: "wcomment list option"

definition plain :: "string \<Rightarrow> para" where
  "plain s = \<lparr>p_text = s, p_style = Normal, p_highlight = False, p_comment_ranges = []\<rparr>"

section \<open>Anchoring strategies (app/agents/docx_annotator.py)\<close>

subsection \<open>\<open>_find_paragraph_index\<close>\<close>

definition lowered_candidates :: "string list \<Rightarrow> string list" where
  "lowered_candidates candidates = map lower (filter (\<lambda>c. c \<noteq> []) candidates)"

definition cand_hit :: "string list \<Rightarrow> para \<Rightarrow> bool" where
  "cand_hit lcs p = list_ex (\<lambda>c. c \<noteq> [] \<and> py_in (take 30 c) (lower (p_text p))) lcs"

fun find_loop :: "nat \<Rightarrow> para list \<Rightarrow> string list \<Rightarrow> nat option" where
  "find_loop idx [] lcs = None"
| "find_loop idx (p # ps) lcs = (if cand_hit lcs p then Some idx else find_loop (Suc idx) ps lcs)"

definition find_paragraph_index :: "docx \<Rightarrow> string list \<Rightarrow> nat option" where
  "find_paragraph_index doc candidates =
     (let lcs = lowered_candidates candidates
      in if lcs = [] then None else find_loop 0 (paragraphs doc) lcs)"

text \<open>The candidate list built per issue in \<open>annotate_docx\<close>.\<close>

definition candidates_of :: "IssueItem \<Rightarrow> string list" where
  "candidates_of it =
     (case evidence it of
        [] \<Rightarrow> []
      | ev # _ \<Rightarrow> if snippet ev \<noteq> [] then [snippet ev] else [])
     @ (if issue it \<noteq> [] then [issue it] else [])
     @ (if section_label it \<noteq> [] then [section_label it] else [])"

subsection \<open>\<open>_keyword_anchor\<close>\<close>

definition keywords_for :: "string \<Rightarrow> string list" where
  "keywords_for txt =
     (let k1 = (if py_in ''jurisdiction'' txt \<or> py_in ''court'' txt
                then [''jurisdiction'', ''court'', ''uae'', ''abu dhabi'', ''adgm''] else []);
          k2 = k1 @ (if py_in ''address'' txt then [''address'', ''registered office''] else [])
      in if py_in ''signature'' txt \<or> (py_in ''adgm'' txt \<and> py_in ''not'' txt) then [] else k2)"

definition hits_of :: "string list \<Rightarrow> para \<Rightarrow> nat" where
  "hits_of keywords p = length (filter (\<lambda>k. py_in k (lower (p_text p))) keywords)"

fun keyword_loop ::
  "nat \<Rightarrow> para list \<Rightarrow> string list \<Rightarrow> nat option \<Rightarrow> nat \<Rightarrow> nat option \<times> nat" where
  "keyword_loop idx [] keywords best_idx best_hits = (best_idx, best_hits)"
| "keyword_loop idx (p # ps) keywords best_idx best_hits =
     (let hits = hits_of keywords p
      in if hits > best_hits then keyword_loop (Suc idx) ps keywords (Some idx) hits
         else keyword_loop (Suc idx) ps keywords best_idx best_hits)"

definition keyword_anchor :: "docx \<Rightarrow> IssueItem \<Rightarrow> nat option" where
  "keyword_anchor doc it =
     (let keywords = keywords_for (lower (issue it))
      in if keywords = [] then None
         else (case keyword_loop 0 (paragraphs doc) keywords None 0 of
                 (best_idx, best_hits) \<Rightarrow> if best_hits > 0 then best_idx else None))"

subsection \<open>\<open>_semantic_anchor\<close>\<close>

text \<open>
  \<open>embed_texts\<close> (a sentence-embedding model) is a parameter: it maps a list of texts to
  one vector per text, or raises (\<open>None\<close>). Scores are the real numbers the floating
  point values denote; \<open>dot a b\<close> is \<open>(a * b).sum()\<close> for two vectors of the model's
  dimension.
\<close>

type_synonym embedder = "string list \<Rightarrow> real list list option"

definition dot :: "real list \<Rightarrow> real list \<Rightarrow> real" where
  "dot a b = sum_list (map2 (*) a b)"

fun semantic_loop ::
  "nat \<Rightarrow> real list list \<Rightarrow> real list \<Rightarrow> nat option \<Rightarrow> real \<Rightarrow> nat option \<times> real" where
  "semantic_loop i [] q_emb best_idx best_score = (best_idx, best_score)"
| "semantic_loop i (e # es) q_emb best_idx best_score =
     (let score = dot e q_emb
      in if score > best_score then semantic_loop (Suc i) es q_emb (Some i) score
         else semantic_loop (Suc i) es q_emb best_idx best_score)"

definition semantic_anchor :: "embedder \<Rightarrow> docx \<Rightarrow> IssueItem \<Rightarrow> nat option" where
  "semantic_anchor embed_texts doc it =
     (let query = issue it in
      if query = [] then None
      else let ptexts = map p_text (paragraphs doc) in
        if ptexts = [] then None
        else (case embed_texts ptexts of
                None \<Rightarrow> None
              | Some par_emb \<Rightarrow>
                  (case embed_texts [query] of
                     None \<Rightarrow> None
                   | Some [] \<Rightarrow> None
                   | Some (q_emb # _) \<Rightarrow>
                       (case semantic_loop 0 par_emb q_emb None (- 1) of
                          (best_idx, best_score) \<Rightarrow>
                            if best_idx \<noteq> None \<and> best_score \<ge> 0.2 then best_idx else None))))"

subsection \<open>The per-issue cascade and the grouping loop of \<open>annotate_docx\<close>\<close>

definition resolve :: "embedder \<Rightarrow> docx \<Rightarrow> IssueItem \<Rightarrow> nat option" where
  "resolve embed_texts doc it =
     (case find_paragraph_index doc (candidates_of it) of
        Some p \<Rightarrow> Some p
      | None \<Rightarrow>
          (case keyword_anchor doc it of
             Some p \<Rightarrow> Some p
           | None \<Rightarrow> semantic_anchor embed_texts doc it))"

text \<open>
  \<open>paragraph_to_issues\<close> is a dict from paragraph index to the issues placed there; it is
  kept as an association list in insertion order, and
  \<open>paragraph_to_issues.setdefault(p_idx, []).append(issue)\<close> is \<open>setdefault_append\<close>.
\<close>

type_synonym groups = "(nat \<times> IssueItem list) list"

fun setdefault_append :: "nat \<Rightarrow> IssueItem \<Rightarrow> groups \<Rightarrow> groups" where
  "setdefault_append k v [] = [(k, [v])]"
| "setdefault_append k v ((k', vs) # rest) =
     (if k' = k then (k', vs @ [v]) # rest else (k', vs) # setdefault_append k v rest)"

fun place_issues ::
  "embedder \<Rightarrow> docx \<Rightarrow> IssueItem list \<Rightarrow> groups \<Rightarrow> IssueItem list \<Rightarrow> groups \<times> IssueItem list" where
  "place_issues embed_texts doc [] paragraph_to_issues unanchored = (paragraph_to_issues, unanchored)"
| "place_issues embed_texts doc (it # its) paragraph_to_issues unanchored =
     (case resolve embed_texts doc it of
        Some p_idx \<Rightarrow>
          place_issues embed_texts doc its (setdefault_append p_idx it paragraph_to_issues) unanchored
      | None \<Rightarrow> place_issues embed_texts doc its paragraph_to_issues (unanchored @ [it]))"

subsection \<open>\<open>_llm_anchor_map\<close>\<close>

text \<open>
  The LLM client is a parameter: \<open>None\<close> when no client is configured, otherwise a
  function from the paragraph digest and the issue payload to the list
  \<open>generate_json_list\<close> returns, or \<open>None\<close> when the call raises. An item of the list
  is an object, given by the values under \<open>issue_idx\<close> and \<open>paragraph_idx\<close> (an
  integer, or anything else including a missing key), or a value that is no object.
\<close>

datatype json = JInt int | JOther

datatype llm_item = Obj json json | NotObj

type_synonym llm_client =
  "(nat \<times> string) list \<Rightarrow> (nat \<times> string \<times> string) list \<Rightarrow> llm_item list option"

fun digest :: "nat \<Rightarrow> para list \<Rightarrow> (nat \<times> string) list \<Rightarrow> (nat \<times> string) list" where
  "digest i [] paras = paras"
| "digest i (p # ps) paras =
     (let txt = strip (p_text p);
          paras' = (if txt \<noteq> [] then paras @ [(i, take 180 txt)] else paras)
      in if length paras' \<ge> 60 then paras' else digest (Suc i) ps paras')"

fun collect_map :: "llm_item list \<Rightarrow> (int \<rightharpoonup> int) \<Rightarrow> (int \<rightharpoonup> int) option" where
  "collect_map [] result = Some result"
| "collect_map (NotObj # items) result = None"
| "collect_map (Obj (JInt ii) (JInt pj) # items) result = collect_map items (result(ii \<mapsto> pj))"
| "collect_map (Obj _ _ # items) result = collect_map items result"

definition llm_anchor_map :: "llm_client option \<Rightarrow> docx \<Rightarrow> IssueItem list \<Rightarrow> (int \<rightharpoonup> int)" where
  "llm_anchor_map llm doc issues =
     (case llm of
        None \<Rightarrow> Map.empty
      | Some client \<Rightarrow>
          if issues = [] then Map.empty
          else let paras = digest 0 (paragraphs doc) [] in
            if paras = [] then Map.empty
            else (case client paras (map (\<lambda>(i, it). (i, issue it, section_label it)) (enumerate 0 issues)) of
                    None \<Rightarrow> Map.empty
                  | Some data \<Rightarrow>
                      (case collect_map data Map.empty of
                         None \<Rightarrow> Map.empty
                       | Some result \<Rightarrow> result)))"

section \<open>Annotation writer (app/agents/docx_annotator.py)\<close>

subsection \<open>\<open>_add_word_comment\<close> and \<open>_add_inline_comment\<close>\<close>

text \<open>
  The scan over the existing comments: \<open>None\<close> when \<open>int(cid)\<close> raises, which the
  source catches by setting \<open>next_id = 0\<close>.
\<close>

fun id_scan :: "int \<Rightarrow> wcomment list \<Rightarrow> int option" where
  "id_scan next_id [] = Some next_id"
| "id_scan next_id (c # cs) =
     (case c_id c of
        NoId \<Rightarrow> id_scan next_id cs
      | IntId cid \<Rightarrow> id_scan (max next_id cid) cs
      | BadId \<Rightarrow> None)"

definition next_comment_id :: "wcomment list \<Rightarrow> int" where
  "next_comment_id existing = (case id_scan 0 existing of Some next_id \<Rightarrow> next_id + 1 | None \<Rightarrow> 0)"

text \<open>
  \<open>_add_word_comment(doc.paragraphs[k], comment_text)\<close>: the document after the call and
  the value returned.
\<close>

definition add_word_comment :: "docx \<Rightarrow> nat \<Rightarrow> string \<Rightarrow> docx \<times> bool" where
  "add_word_comment doc k comment_text =
     (case comments_part doc of
        None \<Rightarrow> (doc, False)
      | Some existing \<Rightarrow>
          (let next_id = next_comment_id existing;
               c = \<lparr>c_id = IntId next_id, c_author = ''ADGM Agent'', c_initials = ''AA'',
                    c_body = comment_text\<rparr>;
               p = paragraphs doc ! k
           in (doc\<lparr>comments_part := Some (existing @ [c]),
                    paragraphs := (paragraphs doc)
                      [k := p\<lparr>p_comment_ranges := p_comment_ranges p @ [next_id]\<rparr>]\<rparr>,
               True)))"

definition add_inline_comment :: "docx \<Rightarrow> nat \<Rightarrow> string \<Rightarrow> docx" where
  "add_inline_comment doc k note_text =
     (let p = paragraphs doc ! k
      in doc\<lparr>paragraphs := (paragraphs doc)
               [k := p\<lparr>p_highlight := True,
                       p_text := p_text p @ '' [Comment: '' @ note_text @ ''] ''\<rparr>]\<rparr>)"

subsection \<open>\<open>_short_citation\<close> and the note texts\<close>

text \<open>
  The regular-expression search of \<open>_short_citation\<close> is a parameter: it yields the
  groups 1 and 3 of the match (law and article), or \<open>None\<close> when nothing matches.
\<close>

type_synonym matcher = "string \<Rightarrow> (string \<times> string) option"

definition short_citation :: "matcher \<Rightarrow> IssueEvidence \<Rightarrow> string" where
  "short_citation re_search ev =
     (case re_search (snippet ev) of
        Some (law, art) \<Rightarrow> strip law @ '', Art. '' @ strip art
      | None \<Rightarrow> ref_id ev)"

definition cite_of :: "matcher \<Rightarrow> IssueItem \<Rightarrow> string" where
  "cite_of re_search it = (case evidence it of [] \<Rightarrow> [] | ev # _ \<Rightarrow> short_citation re_search ev)"

definition sev_of :: "IssueItem \<Rightarrow> string" where
  "sev_of it = (if severity it \<noteq> [] then ''['' @ severity it @ ''] '' else [])"

definition sug_of :: "IssueItem \<Rightarrow> string" where
  "sug_of it =
     (case suggestion it of
        None \<Rightarrow> []
      | Some s \<Rightarrow> if s \<noteq> [] then '' Suggestion: '' @ s else [])"

definition per_of :: "matcher \<Rightarrow> IssueItem \<Rightarrow> string" where
  "per_of re_search it =
     (let cite = cite_of re_search it in if cite \<noteq> [] then '' (Per '' @ cite @ '')'' else [])"

definition note_part :: "matcher \<Rightarrow> nat \<Rightarrow> IssueItem \<Rightarrow> string" where
  "note_part re_search i it =
     str_nat i @ ''. '' @ sev_of it @ issue it @ per_of re_search it @ sug_of it"

definition note_text_of :: "matcher \<Rightarrow> IssueItem list \<Rightarrow> string" where
  "note_text_of re_search iss_list =
     join ''; '' (map (\<lambda>(i, it). note_part re_search i it) (enumerate 1 iss_list))"

subsection \<open>The annotation loop over the sorted groups\<close>

fun annotate_groups ::
  "matcher \<Rightarrow> (int \<rightharpoonup> int) \<Rightarrow> IssueItem list \<Rightarrow> groups \<Rightarrow> docx \<Rightarrow> error + docx" where
  "annotate_groups re_search llm_map issues [] doc = Inr doc"
| "annotate_groups re_search llm_map issues ((p_idx, iss_list) # rest) doc =
     (let note_text = note_text_of re_search iss_list in
      case iss_list of
        [] \<Rightarrow> Inl IndexError
      | first # _ \<Rightarrow>
          (case py_index issues first of
             Inl e \<Rightarrow> Inl e
           | Inr key \<Rightarrow>
               (let target_idx = (case llm_map (int key) of Some t \<Rightarrow> t | None \<Rightarrow> int p_idx) in
                case py_pos (paragraphs doc) target_idx of
                  Inl e \<Rightarrow> Inl e
                | Inr k \<Rightarrow>
                    annotate_groups re_search llm_map issues rest
                      (add_inline_comment (fst (add_word_comment doc k note_text)) k note_text))))"

subsection \<open>Unanchored section and consolidated appendix\<close>

definition heading :: "nat \<Rightarrow> string \<Rightarrow> para" where
  "heading level s = (plain s)\<lparr>p_style := Heading level\<rparr>"

definition page_break :: para where
  "page_break = (plain [])\<lparr>p_style := PageBreak\<rparr>"

definition unanchored_line :: "matcher \<Rightarrow> IssueItem \<Rightarrow> string" where
  "unanchored_line re_search it = ''- '' @ sev_of it @ issue it @ per_of re_search it @ sug_of it"

definition unanchored_section :: "matcher \<Rightarrow> IssueItem list \<Rightarrow> para list" where
  "unanchored_section re_search unanchored =
     (if unanchored = [] then []
      else [plain [], heading 2 ''Unanchored Comments'']
           @ map (\<lambda>it. plain (unanchored_line re_search it)) unanchored)"

definition entry_head :: "matcher \<Rightarrow> nat \<Rightarrow> IssueItem \<Rightarrow> string" where
  "entry_head re_search idx it =
     str_nat idx @ ''. ['' @ severity it @ ''] '' @ issue it @ '' ''
     @ (let cite = cite_of re_search it in if cite \<noteq> [] then ''(Per '' @ cite @ '')'' else [])"

definition citation_line :: "IssueEvidence \<Rightarrow> string" where
  "citation_line ev =
     ''Citation '' @ ref_id ev @ '': '' @ snippet ev
     @ (case source_url ev of
          None \<Rightarrow> []
        | Some u \<Rightarrow> if u \<noteq> [] then '' (source: '' @ u @ '')'' else [])"

definition appendix_entry :: "matcher \<Rightarrow> nat \<Rightarrow> IssueItem \<Rightarrow> para list" where
  "appendix_entry re_search idx it =
     [plain (entry_head re_search idx it)]
     @ (case suggestion it of
          None \<Rightarrow> []
        | Some s \<Rightarrow> if s \<noteq> [] then [plain (''Suggestion: '' @ s)] else [])
     @ map (\<lambda>ev. plain (citation_line ev)) (evidence it)"

definition appendix_entries :: "matcher \<Rightarrow> IssueItem list \<Rightarrow> para list list" where
  "appendix_entries re_search issues =
     map (\<lambda>(idx, it). appendix_entry re_search idx it) (enumerate 1 issues)"

definition issues_section :: "matcher \<Rightarrow> IssueItem list \<Rightarrow> para list" where
  "issues_section re_search issues =
     [page_break, heading 1 ''Issues Found (Automated Review)'']
     @ (if issues = [] then [plain ''No issues were detected.'']
        else concat (appendix_entries re_search issues))"

subsection \<open>Saving\<close>

text \<open>
  \<open>os.path.basename\<close>, \<open>os.path.splitext\<close> (applied to a base name) and
  \<open>os.path.join\<close> of two components, as \<open>posixpath\<close> defines them.
\<close>

definition basename :: "string \<Rightarrow> string" where
  "basename p = rev (takeWhile (\<lambda>c. c \<noteq> CHR ''/'') (rev p))"

definition splitext :: "string \<Rightarrow> string \<times> string" where
  "splitext p =
     (let r = rev p;
          ext_r = takeWhile (\<lambda>c. c \<noteq> CHR ''.'') r
      in case dropWhile (\<lambda>c. c \<noteq> CHR ''.'') r of
           [] \<Rightarrow> (p, [])
         | d # stem_r \<Rightarrow>
             if list_all (\<lambda>c. c = CHR ''.'') stem_r then (p, [])
             else (rev stem_r, d # rev ext_r))"

definition path_join :: "string \<Rightarrow> string \<Rightarrow> string" where
  "path_join a b =
     (if b \<noteq> [] \<and> hd b = CHR ''/'' then b
      else if a = [] \<or> last a = CHR ''/'' then a @ b
      else a @ ''/'' @ b)"

text \<open>
  What \<open>annotate_docx\<close> takes from its environment: the embedding model, the LLM client,
  the regular-expression search, the output directory of the settings, the outcome of
  \<open>doc.save\<close> at a path (\<open>None\<close> when the write succeeds, otherwise the exception),
  the formatted time of \<open>datetime.now()\<close> and the hex digits of \<open>uuid4()\<close>.
\<close>

record env =
  embed_texts :: embedder
  llm :: "llm_client option"
  re_search :: matcher
  output_dir :: string
  save_doc :: "string \<Rightarrow> error option"
  timestamp :: string
  uuid_hex :: string

definition reviewed_path :: "env \<Rightarrow> string \<Rightarrow> string" where
  "reviewed_path e original_path =
     (case splitext (basename original_path) of
        (name, ext) \<Rightarrow> path_join (output_dir e) (name @ ''_reviewed'' @ ext))"

definition unique_path :: "env \<Rightarrow> string \<Rightarrow> string" where
  "unique_path e original_path =
     (case splitext (basename original_path) of
        (name, ext) \<Rightarrow>
          (let unique_suffix = timestamp e @ ''-'' @ take 6 (uuid_hex e)
           in path_join (output_dir e) (name @ ''_reviewed_'' @ unique_suffix @ ext)))"

text \<open>
  The \<open>try\<close>/\<open>except PermissionError\<close> around \<open>doc.save\<close>: the paths a write was
  attempted at, in order, and the path returned or the exception raised.
\<close>

definition save_reviewed :: "env \<Rightarrow> string \<Rightarrow> string list \<times> (error + string)" where
  "save_reviewed e original_path =
     (let out_path = reviewed_path e original_path in
      case save_doc e out_path of
        None \<Rightarrow> ([out_path], Inr out_path)
      | Some PermissionError \<Rightarrow>
          (let out_path2 = unique_path e original_path in
           case save_doc e out_path2 of
             None \<Rightarrow> ([out_path, out_path2], Inr out_path2)
           | Some err \<Rightarrow> ([out_path, out_path2], Inl err))
      | Some err \<Rightarrow> ([out_path], Inl err))"

subsection \<open>\<open>annotate_docx\<close>\<close>

text \<open>
  \<open>doc\<close> is the document \<open>Document(original_path)\<close> loads. The result is the exception
  raised, or the path returned together with the document as it was saved.
\<close>

definition annotate_docx :: "env \<Rightarrow> string \<Rightarrow> docx \<Rightarrow> IssueItem list \<Rightarrow> error + (string \<times> docx)" where
  "annotate_docx e original_path doc issues =
     (case place_issues (embed_texts e) doc issues [] [] of
        (paragraph_to_issues, unanchored) \<Rightarrow>
          (let llm_map = llm_anchor_map (llm e) doc issues in
           case annotate_groups (re_search e) llm_map issues (sort_key fst paragraph_to_issues) doc of
             Inl err \<Rightarrow> Inl err
           | Inr doc1 \<Rightarrow>
               (let doc2 = doc1\<lparr>paragraphs := paragraphs doc1
                                   @ unanchored_section (re_search e) unanchored
                                   @ issues_section (re_search e) issues\<rparr>
                in case snd (save_reviewed e original_path) of
                     Inl err \<Rightarrow> Inl err
                   | Inr out_path \<Rightarrow> Inr (out_path, doc2))))"

section \<open>Similarity retriever (app/services/retriever.py)\<close>

text \<open>
  An entry of \<open>meta.json\<close>: a dict whose keys may be missing. A file of the index
  directory is absent, present but unreadable by its loader, or has a content.
  The FAISS index is a parameter: \<open>index.search(q_vec, k)\<close> yields the first rows of the
  score and index arrays.
\<close>

record meta_entry =
  m_source_path :: "string option"
  m_chunk_index :: "int option"
  m_title :: "string option"
  m_source_url :: "string option"

record hit =
  h_score :: real
  h_chunk :: string
  h_ref_id :: string
  h_source_path :: string
  h_title :: string
  h_source_url :: "string option"

type_synonym faiss_index = "real list list \<Rightarrow> nat \<Rightarrow> real list \<times> int list"

datatype 'a stored = Absent | Corrupt | Content 'a

record index_dir =
  index_faiss :: "faiss_index stored"
  chunks_json :: "string list stored"
  meta_json :: "meta_entry list stored"

record FaissRetriever =
  index :: faiss_index
  chunks :: "string list"
  meta :: "meta_entry list"
  top_k :: nat

definition exists_file :: "'a stored \<Rightarrow> bool" where
  "exists_file f = (case f of Absent \<Rightarrow> False | Corrupt \<Rightarrow> True | Content c \<Rightarrow> True)"

definition retriever_init :: "index_dir \<Rightarrow> nat \<Rightarrow> error + FaissRetriever" where
  "retriever_init d k =
     (if \<not> (exists_file (index_faiss d) \<and> exists_file (chunks_json d)) then Inl IndexNotFound
      else (case index_faiss d of
              Absent \<Rightarrow> Inl FaissReadError
            | Corrupt \<Rightarrow> Inl FaissReadError
            | Content ix \<Rightarrow>
                (case chunks_json d of
                   Absent \<Rightarrow> Inl FileNotFoundError
                 | Corrupt \<Rightarrow> Inl ValueError
                 | Content cs \<Rightarrow>
                     (case meta_json d of
                        Absent \<Rightarrow> Inl FileNotFoundError
                      | Corrupt \<Rightarrow> Inl ValueError
                      | Content ms \<Rightarrow>
                          Inr \<lparr>index = ix, chunks = cs, meta = ms, top_k = k\<rparr>))))"

definition make_hit :: "real \<Rightarrow> string \<Rightarrow> meta_entry \<Rightarrow> error + hit" where
  "make_hit score chunk m =
     (case m_source_path m of
        None \<Rightarrow> Inl KeyError
      | Some sp \<Rightarrow>
          (case m_chunk_index m of
             None \<Rightarrow> Inl KeyError
           | Some ci \<Rightarrow>
               Inr \<lparr>h_score = score,
                    h_chunk = chunk,
                    h_ref_id = basename sp @ ''#chunk-'' @ str_int ci,
                    h_source_path = sp,
                    h_title = (case m_title m of Some t \<Rightarrow> t | None \<Rightarrow> basename sp),
                    h_source_url = m_source_url m\<rparr>))"

fun search_loop :: "FaissRetriever \<Rightarrow> (real \<times> int) list \<Rightarrow> hit list \<Rightarrow> error + hit list" where
  "search_loop r [] results = Inr results"
| "search_loop r ((score, idx) # rest) results =
     (if idx = - 1 then search_loop r rest results
      else (case py_nth (chunks r) idx of
              Inl e \<Rightarrow> Inl e
            | Inr chunk \<Rightarrow>
                (case py_nth (meta r) idx of
                   Inl e \<Rightarrow> Inl e
                 | Inr m \<Rightarrow>
                     (case make_hit score chunk m of
                        Inl e \<Rightarrow> Inl e
                      | Inr h \<Rightarrow> search_loop r rest (results @ [h])))))"

definition search :: "FaissRetriever \<Rightarrow> embedder \<Rightarrow> string \<Rightarrow> error + hit list" where
  "search r embedder query =
     (case embedder [query] of
        None \<Rightarrow> Inl EmbeddingError
      | Some q_vec \<Rightarrow>
          (case index r q_vec (top_k r) of
             (scores, idxs) \<Rightarrow> search_loop r (zip scores idxs) []))"

section \<open>Compliance checker (app/agents/compliance_checker.py)\<close>

subsection \<open>\<open>cite\<close>, the closure of \<open>_heuristic_issues\<close> over \<open>used_refs\<close>\<close>

definition evidence_of :: "hit \<Rightarrow> IssueEvidence" where
  "evidence_of h =
     \<lparr>ref_id = h_ref_id h, snippet = take 400 (h_chunk h), source_url = h_source_url h\<rparr>"

fun first_fresh :: "hit list \<Rightarrow> string set \<Rightarrow> hit option" where
  "first_fresh [] used_refs = None"
| "first_fresh (h # hs) used_refs =
     (if h_ref_id h \<noteq> [] \<and> h_ref_id h \<notin> used_refs then Some h else first_fresh hs used_refs)"

text \<open>
  \<open>retrieve\<close> is \<open>retriever.search\<close>. The result is the evidence list returned and
  \<open>used_refs\<close> after the call.
\<close>

definition cite ::
  "(string \<Rightarrow> error + hit list) \<Rightarrow> string set \<Rightarrow> string \<Rightarrow> error + (IssueEvidence list \<times> string set)" where
  "cite retrieve used_refs query =
     (case retrieve query of
        Inl e \<Rightarrow> Inl e
      | Inr hits \<Rightarrow>
          (case first_fresh hits used_refs of
             Some h \<Rightarrow> Inr ([evidence_of h], insert (h_ref_id h) used_refs)
           | None \<Rightarrow>
               (case hits of
                  [] \<Rightarrow> Inr ([], used_refs)
                | h # _ \<Rightarrow> Inr ([evidence_of h], used_refs))))"

text \<open>A sequence of \<open>cite\<close> calls over one \<open>used_refs\<close>: the evidence lists in call order.\<close>

fun cite_seq ::
  "(string \<Rightarrow> error + hit list) \<Rightarrow> string set \<Rightarrow> string list
    \<Rightarrow> error + (IssueEvidence list list \<times> string set)" where
  "cite_seq retrieve used_refs [] = Inr ([], used_refs)"
| "cite_seq retrieve used_refs (q # qs) =
     (case cite retrieve used_refs q of
        Inl e \<Rightarrow> Inl e
      | Inr (ev, used') \<Rightarrow>
          (case cite_seq retrieve used' qs of
             Inl e \<Rightarrow> Inl e
           | Inr (evs, used'') \<Rightarrow> Inr (ev # evs, used'')))"

subsection \<open>\<open>_heuristic_issues\<close> and \<open>check_compliance\<close>\<close>

definition new_issue ::
  "string \<Rightarrow> string \<Rightarrow> string \<Rightarrow> IssueEvidence list \<Rightarrow> string \<Rightarrow> string \<Rightarrow> IssueItem" where
  "new_issue display_name issue_text sev ev sugg file_name =
     \<lparr>document = display_name, section_label = [], issue = issue_text, severity = sev,
      evidence = ev, suggestion = Some sugg, source_filename = Some file_name,
      category = None, groundedness = None, suggestion_long = None\<rparr>"

definition q_jurisdiction :: string where
  "q_jurisdiction = ''ADGM jurisdiction courts Companies Regulations article jurisdiction courts''"

definition q_signature :: string where
  "q_signature = ''ADGM execution signature requirements signatory section''"

definition q_adgm :: string where
  "q_adgm = ''ADGM Companies Regulations reference incorporation under ADGM''"

definition s_jurisdiction :: string where
  "s_jurisdiction =
     ''Specify ADGM Courts as the governing jurisdiction. Suggested clause: ''
     @ [CHR 0x27] @ ''This Agreement shall be governed by the laws of the Abu Dhabi Global Market (ADGM), and the courts of ADGM shall have exclusive jurisdiction.''
     @ [CHR 0x27]"

definition s_signature :: string where
  "s_signature =
     ''Add signatory block with name, title, date, and authorized signature. Example: ''
     @ [CHR 0x27] @ ''Signed for and on behalf of the Company by: Name: __________  Title: __________  Date: __________  Signature: __________''
     @ [CHR 0x27]"

definition s_adgm :: string where
  "s_adgm =
     ''Add a clause clarifying ADGM incorporation. Suggested wording: ''
     @ [CHR 0x27] @ ''The Company is incorporated and existing under the Abu Dhabi Global Market (ADGM) Companies Regulations.''
     @ [CHR 0x27]"

definition flags_jurisdiction :: "string \<Rightarrow> bool" where
  "flags_jurisdiction low =
     (py_in ''jurisdiction'' low \<or> py_in ''federal'' low \<or> py_in ''uae courts'' low
      \<or> py_in ''abu dhabi courts'' low)"

definition flags_signature :: "string \<Rightarrow> bool" where
  "flags_signature low = (\<not> py_in ''signature'' low \<and> \<not> py_in ''signed'' low)"

definition flags_adgm :: "string \<Rightarrow> bool" where
  "flags_adgm low = (\<not> py_in ''adgm'' low)"

definition heuristic_issues ::
  "string \<Rightarrow> string \<Rightarrow> string \<Rightarrow> (string \<Rightarrow> error + hit list) \<Rightarrow> error + IssueItem list" where
  "heuristic_issues file_name display_name txt retrieve =
     (let low = lower txt in
      case (if flags_jurisdiction low
            then (case cite retrieve {} q_jurisdiction of
                    Inl e \<Rightarrow> Inl e
                  | Inr (ev, used) \<Rightarrow>
                      Inr ([new_issue display_name ''Jurisdiction references non-ADGM courts.''
                              ''High'' ev s_jurisdiction file_name], used))
            else Inr ([], {})) of
        Inl e \<Rightarrow> Inl e
      | Inr (issues1, used1) \<Rightarrow>
          (case (if flags_signature low
                 then (case cite retrieve used1 q_signature of
                         Inl e \<Rightarrow> Inl e
                       | Inr (ev, used) \<Rightarrow>
                           Inr (issues1 @ [new_issue display_name ''Missing explicit signatory section.''
                                   ''Medium'' ev s_signature file_name], used))
                 else Inr (issues1, used1)) of
             Inl e \<Rightarrow> Inl e
           | Inr (issues2, used2) \<Rightarrow>
               (if flags_adgm low
                then (case cite retrieve used2 q_adgm of
                        Inl e \<Rightarrow> Inl e
                      | Inr (ev, used) \<Rightarrow>
                          Inr (issues2 @ [new_issue display_name
                                  ''Document does not explicitly reference ADGM.''
                                  ''Low'' ev s_adgm file_name]))
                else Inr issues2)))"

text \<open>
  \<open>llm_pass\<close> stands for the clause-by-clause LLM pass of \<open>check_compliance\<close>, which
  absorbs its own retrieval and LLM failures: \<open>None\<close> when no LLM client is configured,
  otherwise the issues it collects with the retriever.
\<close>

definition check_compliance ::
  "index_dir \<Rightarrow> embedder \<Rightarrow> (FaissRetriever \<Rightarrow> IssueItem list) option
    \<Rightarrow> string \<Rightarrow> string \<Rightarrow> string \<Rightarrow> error + IssueItem list" where
  "check_compliance d embedder llm_pass file_name display_name txt =
     (case retriever_init d 4 of
        Inl e \<Rightarrow> Inl e
      | Inr retriever \<Rightarrow>
          (case llm_pass of
             None \<Rightarrow> heuristic_issues file_name display_name txt (search retriever embedder)
           | Some pass \<Rightarrow>
               (let issues_all = pass retriever in
                if issues_all \<noteq> [] then Inr issues_all
                else heuristic_issues file_name display_name txt (search retriever embedder))))"

section \<open>Specification predicates\<close>

text \<open>
  \<open>argmax_first xs k\<close>: position \<open>k\<close> holds the greatest value of \<open>xs\<close>, and every earlier
  position holds a strictly smaller one (the first occurrence of the maximum).
  \<open>best_loop\<close> is the scan both \<open>_keyword_anchor\<close> and \<open>_semantic_anchor\<close> run over
  their per-paragraph scores.
\<close>

definition argmax_first :: "'a::linorder list \<Rightarrow> nat \<Rightarrow> bool" where
  "argmax_first xs k =
     (k < length xs \<and> list_all (\<lambda>x. x \<le> xs ! k) xs \<and> list_all (\<lambda>x. x < xs ! k) (take k xs))"

fun best_loop :: "nat \<Rightarrow> 'a::linorder list \<Rightarrow> nat option \<Rightarrow> 'a \<Rightarrow> nat option \<times> 'a" where
  "best_loop i [] best_idx best = (best_idx, best)"
| "best_loop i (x # xs) best_idx best =
     (if x > best then best_loop (Suc i) xs (Some i) x else best_loop (Suc i) xs best_idx best)"

text \<open>
  \<open>prefix30_in cs p\<close>: the lowered text of paragraph \<open>p\<close> contains the first 30 characters
  of some non-empty candidate of \<open>cs\<close>, lowered.
\<close>

definition prefix30_in :: "string list \<Rightarrow> para \<Rightarrow> bool" where
  "prefix30_in cs p =
     (\<exists>c \<in> set cs. c \<noteq> [] \<and> (\<exists>pre post. lower (p_text p) = pre @ take 30 (lower c) @ post))"

text \<open>The keyword counts and the similarity scores of the paragraphs of a document.\<close>

definition keyword_hits :: "docx \<Rightarrow> IssueItem \<Rightarrow> nat list" where
  "keyword_hits doc it = map (hits_of (keywords_for (lower (issue it)))) (paragraphs doc)"

definition scores_of :: "real list list \<Rightarrow> real list \<Rightarrow> real list" where
  "scores_of par_emb q_emb = map (\<lambda>e. dot e q_emb) par_emb"

text \<open>
  The issues of all anchored groups, and the invariant of the grouping loop: no group is
  empty and every issue of the group at \<open>p\<close> resolves to \<open>p\<close>. \<open>embed_contract\<close> is the
  contract of the embedding model: one vector per text.
\<close>

definition anchored :: "groups \<Rightarrow> IssueItem list" where
  "anchored g = concat (map snd g)"

definition groups_ok :: "embedder \<Rightarrow> docx \<Rightarrow> groups \<Rightarrow> bool" where
  "groups_ok emb doc g =
     list_all (\<lambda>(p, vs). vs \<noteq> [] \<and> list_all (\<lambda>x. resolve emb doc x = Some p) vs) g"

definition embed_contract :: "embedder \<Rightarrow> bool" where
  "embed_contract emb = (\<forall>ts r. emb ts = Some r \<longrightarrow> length r = length ts)"

text \<open>
  The integer ids of the comments of a store, in order, and the stores whose every
  \<open>w:id\<close> is absent or an integer (so that the scan of \<open>_add_word_comment\<close> does not
  raise).
\<close>

definition comment_ids :: "wcomment list \<Rightarrow> int list" where
  "comment_ids cs = concat (map (\<lambda>c. case c_id c of IntId n \<Rightarrow> [n] | _ \<Rightarrow> []) cs)"


text \<open>
  A slot of the index result that \<open>search\<close> can serve: the placeholder \<open>-1\<close>, or an
  offset inside both parallel arrays whose metadata entry has the two keys \<open>search\<close>
  reads without a default. \<open>from_offset r h (s, i)\<close>: the result \<open>h\<close> was built for the
  slot with score \<open>s\<close> and index \<open>i\<close>, from \<open>chunks[i]\<close> and \<open>meta[i]\<close>.
\<close>

definition slot_ok :: "FaissRetriever \<Rightarrow> int \<Rightarrow> bool" where
  "slot_ok r i =
     (i = - 1
      \<or> (0 \<le> i \<and> nat i < length (chunks r) \<and> nat i < length (meta r)
          \<and> m_source_path (meta r ! nat i) \<noteq> None \<and> m_chunk_index (meta r ! nat i) \<noteq> None))"

definition from_offset :: "FaissRetriever \<Rightarrow> hit \<Rightarrow> real \<times> int \<Rightarrow> bool" where
  "from_offset r h z =
     (snd z \<noteq> - 1
      \<and> (\<exists>c m. py_nth (chunks r) (snd z) = Inr c \<and> py_nth (meta r) (snd z) = Inr m
             \<and> make_hit (fst z) c m = Inr h))"

definition served :: "(real \<times> int) list \<Rightarrow> (real \<times> int) list" where
  "served zs = filter (\<lambda>z. snd z \<noteq> - 1) zs"

text \<open>
  The reference ids attached to a list of issues, in order; the queries \<open>_heuristic_issues\<close>
  cites for a text; and the runs of \<open>cite\<close> calls in which every call finds a hit whose
  reference id is non-empty and not yet used.
\<close>

definition attached_refs :: "IssueItem list \<Rightarrow> string list" where
  "attached_refs issues = map ref_id (concat (map evidence issues))"

definition refs_of_result :: "error + IssueItem list \<Rightarrow> string list" where
  "refs_of_result res = (case res of Inl e \<Rightarrow> [] | Inr issues \<Rightarrow> attached_refs issues)"

definition queries_of :: "string \<Rightarrow> string list" where
  "queries_of txt =
     (if flags_jurisdiction (lower txt) then [q_jurisdiction] else [])
     @ (if flags_signature (lower txt) then [q_signature] else [])
     @ (if flags_adgm (lower txt) then [q_adgm] else [])"

fun fresh_run :: "(string \<Rightarrow> error + hit list) \<Rightarrow> string set \<Rightarrow> string list \<Rightarrow> bool" where
  "fresh_run retrieve used_refs [] = True"
| "fresh_run retrieve used_refs (q # qs) =
     (case retrieve q of
        Inl e \<Rightarrow> False
      | Inr hits \<Rightarrow>
          (case first_fresh hits used_refs of
             None \<Rightarrow> False
           | Some h \<Rightarrow> fresh_run retrieve (insert (h_ref_id h) used_refs) qs))"


section \<open>Example documents and environments\<close>

definition ex_doc :: docx where
  "ex_doc =
     \<lparr>paragraphs =
        [plain ''Articles of Association of Example Ltd.'',
         plain ''This Agreement shall be governed by UAE Federal Courts.'',
         plain ''The registered office address of the Company is in Abu Dhabi.''],
      comments_part = Some []\<rparr>"

definition ex_issue :: "string \<Rightarrow> IssueEvidence list \<Rightarrow> IssueItem" where
  "ex_issue txt ev =
     \<lparr>document = ''aoa.docx'', section_label = [], issue = txt, severity = ''High'',
      evidence = ev, suggestion = None, source_filename = Some ''aoa.docx'',
      category = None, groundedness = None, suggestion_long = None\<rparr>"

definition ex_jurisdiction :: IssueItem where
  "ex_jurisdiction = ex_issue ''Jurisdiction references non-ADGM courts.'' []"

definition ex_signatory :: IssueItem where
  "ex_signatory = ex_issue ''Missing explicit signatory section.'' []"


definition ex_quoted :: IssueItem where
  "ex_quoted =
     ex_issue ''Forum clause''
       [\<lparr>ref_id = ''regs.txt#chunk-3'',
         snippet = ''shall be governed by UAE Federal Courts and no other forum'',
         source_url = None\<rparr>]"

text \<open>
  A toy embedding: one coordinate, \<open>1\<close> for a query about the forum, \<open>1/5\<close> for a text
  naming a court, \<open>1/10\<close> otherwise. \<open>ex_unit\<close> embeds every text as the same unit vector.
\<close>

definition ex_embed :: embedder where
  "ex_embed ts =
     Some (map (\<lambda>t. if t = ''Which forum?'' then [1]
                      else if py_in ''court'' (lower t) then [1 / 5] else [1 / 10]) ts)"








definition ex_issues :: "IssueItem list" where
  "ex_issues = [ex_jurisdiction, ex_signatory, ex_quoted]"

text \<open>
  An environment without an LLM client in which every write succeeds, one in which the
  first output path is locked, one in which every path is, one in which every write
  fails for another reason, and one whose LLM client maps issue 0 to paragraph 7.
\<close>

definition ex_env :: env where
  "ex_env =
     \<lparr>embed_texts = ex_embed, llm = None, re_search = (\<lambda>s. None),
      output_dir = ''data/outputs'', save_doc = (\<lambda>p. None),
      timestamp = ''20250101-120000'', uuid_hex = ''3f2a9c0de1b24c6f''\<rparr>"




definition ex_env_llm :: env where
  "ex_env_llm = ex_env\<lparr>llm := Some (\<lambda>paras payload. Some [Obj (JInt 0) (JInt 7)])\<rparr>"

text \<open>
  A corpus of three chunks whose index ranks them 2, 0, 1 for every query and pads the
  fourth slot, a corpus of one chunk, and an index directory that lacks \<open>meta.json\<close>.
\<close>

definition ex_meta :: "nat \<Rightarrow> meta_entry" where
  "ex_meta i =
     \<lparr>m_source_path = Some ''references/regs.txt'', m_chunk_index = Some (int i),
      m_title = Some ''regs.txt'', m_source_url = None\<rparr>"

definition ex_retriever :: FaissRetriever where
  "ex_retriever =
     \<lparr>index = (\<lambda>q_vec k. ([9 / 10, 1 / 2, 1 / 4, - 1], [2, 0, 1, - 1])),
      chunks = [''ADGM Courts have exclusive jurisdiction.'',
                ''Documents are executed by signature of a director.'',
                ''Companies are incorporated under the ADGM Companies Regulations.''],
      meta = [ex_meta 0, ex_meta 1, ex_meta 2],
      top_k = 4\<rparr>"

definition ex_single :: FaissRetriever where
  "ex_single =
     \<lparr>index = (\<lambda>q_vec k. ([9 / 10, - 1, - 1, - 1], [0, - 1, - 1, - 1])),
      chunks = [''ADGM Courts have exclusive jurisdiction.''],
      meta = [ex_meta 0],
      top_k = 4\<rparr>"

definition ex_hit0 :: hit where
  "ex_hit0 =
     \<lparr>h_score = 9 / 10, h_chunk = ''ADGM Courts have exclusive jurisdiction.'',
      h_ref_id = ''regs.txt#chunk-0'', h_source_path = ''references/regs.txt'',
      h_title = ''regs.txt'', h_source_url = None\<rparr>"

definition ex_dir_empty :: index_dir where
  "ex_dir_empty = \<lparr>index_faiss = Absent, chunks_json = Absent, meta_json = Absent\<rparr>"

definition ex_dir_built :: index_dir where
  "ex_dir_built =
     \<lparr>index_faiss = Content (index ex_retriever),
      chunks_json = Content (chunks ex_retriever),
      meta_json = Content (meta ex_retriever)\<rparr>"

definition ex_text :: string where
  "ex_text = ''Disputes are subject to the jurisdiction of the Federal Courts.''"

definition ex_dir_no_meta :: index_dir where
  "ex_dir_no_meta =
     \<lparr>index_faiss = Content (index ex_retriever),
      chunks_json = Content (chunks ex_retriever),
      meta_json = Absent\<rparr>"

text \<open>A refinement map that sends issue 0 to paragraph 2.\<close>

definition ex_map :: "int \<rightharpoonup> int" where
  "ex_map = [0 \<mapsto> 2]"

section \<open>Properties\<close>

subsection \<open>Substring containment and the substring strategy\<close>

lemma py_in_iff: "py_in c t \<longleftrightarrow> (\<exists>ps ss. t = ps @ c @ ss)"
proof (induction t)
  case Nil
  then show ?case by auto
next
  case (Cons x xs)
  show ?case
  proof
    assume "py_in c (x # xs)"
    then consider "prefix c (x # xs)" | "py_in c xs" by auto
    then show "\<exists>ps ss. x # xs = ps @ c @ ss"
    proof cases
      case 1
      then obtain ss where "x # xs = c @ ss" by (auto simp: prefix_def)
      then have "x # xs = [] @ c @ ss" by simp
      then show ?thesis by blast
    next
      case 2
      with Cons.IH obtain ps ss where "xs = ps @ c @ ss" by blast
      then have "x # xs = (x # ps) @ c @ ss" by simp
      then show ?thesis by blast
    qed
  next
    assume "\<exists>ps ss. x # xs = ps @ c @ ss"
    then obtain ps ss where e: "x # xs = ps @ c @ ss" by blast
    show "py_in c (x # xs)"
    proof (cases ps)
      case Nil
      with e have "prefix c (x # xs)" by (auto simp: prefix_def)
      then show ?thesis by simp
    next
      case (Cons p ps')
      with e have "xs = ps' @ c @ ss" by simp
      with Cons.IH have "py_in c xs" by blast
      then show ?thesis by simp
    qed
  qed
qed

lemma find_loop_SomeD:
  "find_loop idx ps lcs = Some i \<Longrightarrow>
     \<exists>k. i = idx + k \<and> k < length ps \<and> cand_hit lcs (ps ! k)
        \<and> (\<forall>j < k. \<not> cand_hit lcs (ps ! j))"
proof (induction ps arbitrary: idx)
  case Nil
  then show ?case by simp
next
  case (Cons p ps)
  show ?case
  proof (cases "cand_hit lcs p")
    case True
    with Cons.prems have "i = idx + 0" by simp
    with True show ?thesis by auto
  next
    case False
    with Cons.prems have "find_loop (Suc idx) ps lcs = Some i" by simp
    from Cons.IH [OF this] obtain k where
      k: "i = Suc idx + k" "k < length ps" "cand_hit lcs (ps ! k)"
         "\<forall>j < k. \<not> cand_hit lcs (ps ! j)" by blast
    have "\<forall>j < Suc k. \<not> cand_hit lcs ((p # ps) ! j)"
      using False k(4) by (auto simp: nth_Cons split: nat.splits)
    with k show ?thesis
      by (intro exI [of _ "Suc k"]) simp
  qed
qed

lemma find_loop_SomeI:
  "k < length ps \<Longrightarrow> cand_hit lcs (ps ! k) \<Longrightarrow> \<forall>j < k. \<not> cand_hit lcs (ps ! j)
     \<Longrightarrow> find_loop idx ps lcs = Some (idx + k)"
proof (induction ps arbitrary: idx k)
  case Nil
  then show ?case by simp
next
  case (Cons p ps)
  show ?case
  proof (cases k)
    case 0
    with Cons.prems show ?thesis by simp
  next
    case (Suc k')
    with Cons.prems have np: "\<not> cand_hit lcs p" by fastforce
    have "find_loop (Suc idx) ps lcs = Some (Suc idx + k')"
    proof (rule Cons.IH)
      show "k' < length ps" using Cons.prems Suc by simp
      show "cand_hit lcs (ps ! k')" using Cons.prems Suc by simp
      show "\<forall>j<k'. \<not> cand_hit lcs (ps ! j)"
      proof (intro allI impI)
        fix j assume "j < k'"
        then have "Suc j < k" using Suc by simp
        with Cons.prems(3) have "\<not> cand_hit lcs ((p # ps) ! Suc j)" by blast
        then show "\<not> cand_hit lcs (ps ! j)" by simp
      qed
    qed
    with np Suc show ?thesis by simp
  qed
qed


subsection \<open>The strict-maximum scan\<close>

lemma argmax_first_0: "list_all (\<lambda>y. y \<le> x) xs \<Longrightarrow> argmax_first (x # xs) 0"
  by (simp add: argmax_first_def)

lemma argmax_first_Suc:
  "argmax_first xs k \<Longrightarrow> x < xs ! k \<Longrightarrow> argmax_first (x # xs) (Suc k)"
  by (simp add: argmax_first_def)

lemma best_loop_keep:
  "list_all (\<lambda>x. x \<le> best) xs \<Longrightarrow> best_loop i xs best_idx best = (best_idx, best)"
  by (induction xs arbitrary: i) auto

lemma best_loop_move:
  "\<not> list_all (\<lambda>x. x \<le> best) xs \<Longrightarrow>
     \<exists>k. best_loop i xs best_idx best = (Some (i + k), xs ! k) \<and> argmax_first xs k \<and> best < xs ! k"
proof (induction xs arbitrary: i best_idx best)
  case Nil
  then show ?case by simp
next
  case (Cons x xs)
  show ?case
  proof (cases "x > best")
    case True
    show ?thesis
    proof (cases "list_all (\<lambda>y. y \<le> x) xs")
      case all: True
      then have "best_loop (Suc i) xs (Some i) x = (Some i, x)" by (rule best_loop_keep)
      with True all show ?thesis
        by (intro exI [of _ 0]) (simp add: argmax_first_0)
    next
      case False
      from Cons.IH [OF this, of "Suc i" "Some i"] obtain k where
        k: "best_loop (Suc i) xs (Some i) x = (Some (Suc i + k), xs ! k)"
           "argmax_first xs k" "x < xs ! k" by blast
      with True show ?thesis
        by (intro exI [of _ "Suc k"]) (auto simp: argmax_first_Suc)
    qed
  next
    case False
    with Cons.prems have "\<not> list_all (\<lambda>x. x \<le> best) xs" by simp
    from Cons.IH [OF this, of "Suc i" best_idx] obtain k where
      k: "best_loop (Suc i) xs best_idx best = (Some (Suc i + k), xs ! k)"
         "argmax_first xs k" "best < xs ! k" by blast
    with False have "x < xs ! k" by simp
    with k False show ?thesis
      by (intro exI [of _ "Suc k"]) (auto simp: argmax_first_Suc)
  qed
qed

lemma argmax_first_unique: "argmax_first xs k \<Longrightarrow> argmax_first xs k' \<Longrightarrow> k = k'"
proof (rule ccontr)
  assume a: "argmax_first xs k" "argmax_first xs k'" and ne: "k \<noteq> k'"
  have *: "False" if "argmax_first xs a" "argmax_first xs b" "a < b" for a b :: nat
  proof -
    from that have "b < length xs" by (simp add: argmax_first_def)
    from that have "xs ! a \<in> set (take b xs)"
      by (metis \<open>b < length xs\<close> in_set_conv_nth length_take less_imp_le_nat min.absorb2 nth_take)
    with that(2) have "xs ! a < xs ! b" by (simp add: argmax_first_def list_all_iff)
    moreover from that have "xs ! b \<le> xs ! a" by (simp add: argmax_first_def list_all_iff)
    ultimately show False by simp
  qed
  from ne consider "k < k'" | "k' < k" by linarith
  then show False using * a by cases blast+
qed

lemma keyword_loop_best:
  "keyword_loop idx ps kws bi bh = best_loop idx (map (hits_of kws) ps) bi bh"
  by (induction ps arbitrary: idx bi bh) (simp_all add: Let_def)

lemma semantic_loop_best:
  "semantic_loop i es q bi bs = best_loop i (map (\<lambda>e. dot e q) es) bi bs"
  by (induction es arbitrary: i bi bs) (simp_all add: Let_def)


subsection \<open>The substring strategy\<close>

lemma lower_Nil_iff: "lower c = [] \<longleftrightarrow> c = []"
  by (simp add: lower_def)

lemma cand_hit_iff: "cand_hit (lowered_candidates cs) p \<longleftrightarrow> prefix30_in cs p"
  by (auto simp: cand_hit_def lowered_candidates_def prefix30_in_def list_ex_iff py_in_iff
      lower_Nil_iff)

lemma lowered_candidates_Nil:
  "lowered_candidates cs = [] \<Longrightarrow> \<not> prefix30_in cs p"
  by (auto simp: lowered_candidates_def prefix30_in_def filter_empty_conv)

lemma find_paragraph_index_Some:
  "find_paragraph_index doc cs = Some i \<longleftrightarrow>
     i < length (paragraphs doc) \<and> prefix30_in cs (paragraphs doc ! i)
     \<and> (\<forall>j < i. \<not> prefix30_in cs (paragraphs doc ! j))"
proof (cases "lowered_candidates cs = []")
  case True
  then show ?thesis
    by (auto simp: find_paragraph_index_def dest: lowered_candidates_Nil)
next
  case False
  show ?thesis
  proof
    assume "find_paragraph_index doc cs = Some i"
    with False have "find_loop 0 (paragraphs doc) (lowered_candidates cs) = Some i"
      by (simp add: find_paragraph_index_def)
    from find_loop_SomeD [OF this] show
      "i < length (paragraphs doc) \<and> prefix30_in cs (paragraphs doc ! i)
       \<and> (\<forall>j < i. \<not> prefix30_in cs (paragraphs doc ! j))"
      by (auto simp: cand_hit_iff)
  next
    assume a: "i < length (paragraphs doc) \<and> prefix30_in cs (paragraphs doc ! i)
       \<and> (\<forall>j < i. \<not> prefix30_in cs (paragraphs doc ! j))"
    then have "find_loop 0 (paragraphs doc) (lowered_candidates cs) = Some (0 + i)"
      by (intro find_loop_SomeI) (auto simp: cand_hit_iff)
    with False show "find_paragraph_index doc cs = Some i"
      by (simp add: find_paragraph_index_def)
  qed
qed






subsection \<open>The keyword strategy\<close>

lemma hits_of_Nil: "hits_of [] p = 0"
  by (simp add: hits_of_def)

lemma keyword_anchor_Some:
  "keyword_anchor doc it = Some i \<longleftrightarrow>
     argmax_first (keyword_hits doc it) i \<and> 0 < keyword_hits doc it ! i"
proof (cases "keywords_for (lower (issue it)) = []")
  case True
  then have "keyword_hits doc it ! i = 0" if "i < length (keyword_hits doc it)"
    using that by (simp add: keyword_hits_def hits_of_Nil)
  with True show ?thesis
    by (auto simp: keyword_anchor_def argmax_first_def)
next
  case False
  let ?hs = "keyword_hits doc it"
  have loop: "keyword_loop 0 (paragraphs doc) (keywords_for (lower (issue it))) None 0
      = best_loop 0 ?hs None 0"
    by (simp add: keyword_loop_best keyword_hits_def)
  show ?thesis
  proof (cases "list_all (\<lambda>h. h \<le> 0) ?hs")
    case True
    then have "best_loop 0 ?hs None 0 = (None, 0)" by (rule best_loop_keep)
    with False loop have none: "keyword_anchor doc it = None"
      by (simp add: keyword_anchor_def)
    have "\<not> (argmax_first ?hs i \<and> 0 < ?hs ! i)"
    proof
      assume a: "argmax_first ?hs i \<and> 0 < ?hs ! i"
      then have "?hs ! i \<in> set ?hs" by (simp add: argmax_first_def)
      with True have "?hs ! i \<le> 0" by (simp add: list_all_iff)
      with a show False by simp
    qed
    with none show ?thesis by simp
  next
    case nz: False
    from best_loop_move [OF nz, of 0 None] obtain k where
      k: "best_loop 0 ?hs None 0 = (Some (0 + k), ?hs ! k)" "argmax_first ?hs k" "0 < ?hs ! k"
      by blast
    with False loop have some: "keyword_anchor doc it = Some k"
      by (simp add: keyword_anchor_def)
    show ?thesis
    proof
      assume "keyword_anchor doc it = Some i"
      with some have "i = k" by simp
      with k show "argmax_first ?hs i \<and> 0 < ?hs ! i" by simp
    next
      assume "argmax_first ?hs i \<and> 0 < ?hs ! i"
      with k(2) have "i = k" by (auto dest: argmax_first_unique)
      with some show "keyword_anchor doc it = Some i" by simp
    qed
  qed
qed









subsection \<open>The semantic strategy\<close>

lemma semantic_anchor_eval:
  assumes "issue it \<noteq> []"
    and "emb (map p_text (paragraphs doc)) = Some par_emb"
    and "length par_emb = length (paragraphs doc)"
    and "emb [issue it] = Some (q_emb # rest)"
  shows "semantic_anchor emb doc it =
     (case best_loop 0 (scores_of par_emb q_emb) None (- 1) of
        (best_idx, best_score) \<Rightarrow> if best_idx \<noteq> None \<and> best_score \<ge> 0.2 then best_idx else None)"
proof (cases "paragraphs doc = []")
  case True
  with assms(3) have "par_emb = []" by simp
  with True assms(1) show ?thesis by (simp add: semantic_anchor_def scores_of_def)
next
  case False
  with assms show ?thesis
    by (simp add: semantic_anchor_def semantic_loop_best scores_of_def)
qed

lemma semantic_anchor_Some:
  assumes "issue it \<noteq> []"
    and "emb (map p_text (paragraphs doc)) = Some par_emb"
    and "length par_emb = length (paragraphs doc)"
    and "emb [issue it] = Some (q_emb # rest)"
  shows "semantic_anchor emb doc it = Some i \<longleftrightarrow>
     argmax_first (scores_of par_emb q_emb) i \<and> 0.2 \<le> scores_of par_emb q_emb ! i"
proof -
  let ?ss = "scores_of par_emb q_emb"
  note ev = semantic_anchor_eval [OF assms]
  show ?thesis
  proof (cases "list_all (\<lambda>s. s \<le> - 1) ?ss")
    case True
    then have "best_loop 0 ?ss None (- 1) = (None, - 1)" by (rule best_loop_keep)
    with ev have none: "semantic_anchor emb doc it = None" by simp
    have "\<not> (argmax_first ?ss i \<and> 0.2 \<le> ?ss ! i)"
    proof
      assume a: "argmax_first ?ss i \<and> 0.2 \<le> ?ss ! i"
      then have "?ss ! i \<in> set ?ss" by (simp add: argmax_first_def)
      with True have "?ss ! i \<le> - 1" by (simp add: list_all_iff)
      with a show False by simp
    qed
    with none show ?thesis by simp
  next
    case False
    from best_loop_move [OF False, of 0 None] obtain k where
      k: "best_loop 0 ?ss None (- 1) = (Some (0 + k), ?ss ! k)" "argmax_first ?ss k"
      by blast
    with ev have res: "semantic_anchor emb doc it = (if 0.2 \<le> ?ss ! k then Some k else None)"
      by simp
    show ?thesis
    proof
      assume "semantic_anchor emb doc it = Some i"
      with res have "i = k" "0.2 \<le> ?ss ! k" by (simp_all split: if_splits)
      with k show "argmax_first ?ss i \<and> 0.2 \<le> ?ss ! i" by simp
    next
      assume a: "argmax_first ?ss i \<and> 0.2 \<le> ?ss ! i"
      with k(2) have "i = k" by (auto dest: argmax_first_unique)
      with a res show "semantic_anchor emb doc it = Some i" by simp
    qed
  qed
qed






subsection \<open>Placement of the issues and the consolidated appendix\<close>

lemma anchored_setdefault_append:
  "mset (anchored (setdefault_append k v g)) = add_mset v (mset (anchored g))"
  by (induction g) (auto simp: anchored_def)

lemma keys_setdefault_append:
  "fst ` set (setdefault_append k v g) = insert k (fst ` set g)"
  by (induction k v g rule: setdefault_append.induct) auto

lemma distinct_setdefault_append:
  "distinct (map fst g) \<Longrightarrow> distinct (map fst (setdefault_append k v g))"
  by (induction k v g rule: setdefault_append.induct) (auto simp: keys_setdefault_append)

lemma place_issues_mset:
  "place_issues emb doc its g u = (g', u') \<Longrightarrow>
     mset (anchored g') + mset u' = mset (anchored g) + mset u + mset its"
proof (induction its arbitrary: g u)
  case Nil
  then show ?case by simp
next
  case (Cons it its)
  show ?case
  proof (cases "resolve emb doc it")
    case None
    with Cons.prems have "place_issues emb doc its g (u @ [it]) = (g', u')" by simp
    from Cons.IH [OF this] show ?thesis by simp
  next
    case (Some p)
    with Cons.prems have "place_issues emb doc its (setdefault_append p it g) u = (g', u')" by simp
    from Cons.IH [OF this] show ?thesis by (simp add: anchored_setdefault_append)
  qed
qed

lemma place_issues_unanchored:
  "place_issues emb doc its g u = (g', u') \<Longrightarrow>
     u' = u @ filter (\<lambda>it. resolve emb doc it = None) its"
proof (induction its arbitrary: g u)
  case Nil
  then show ?case by simp
next
  case (Cons it its)
  show ?case
  proof (cases "resolve emb doc it")
    case None
    with Cons.prems have "place_issues emb doc its g (u @ [it]) = (g', u')" by simp
    from Cons.IH [OF this] None show ?thesis by simp
  next
    case (Some p)
    with Cons.prems have "place_issues emb doc its (setdefault_append p it g) u = (g', u')" by simp
    from Cons.IH [OF this] Some show ?thesis by simp
  qed
qed

lemma groups_ok_setdefault_append:
  "groups_ok emb doc g \<Longrightarrow> resolve emb doc v = Some k \<Longrightarrow> groups_ok emb doc (setdefault_append k v g)"
  unfolding groups_ok_def by (induction g) auto

lemma place_issues_groups_ok:
  "place_issues emb doc its g u = (g', u') \<Longrightarrow> groups_ok emb doc g \<Longrightarrow> groups_ok emb doc g'"
proof (induction its arbitrary: g u)
  case Nil
  then show ?case by simp
next
  case (Cons it its)
  show ?case
  proof (cases "resolve emb doc it")
    case None
    with Cons.prems have "place_issues emb doc its g (u @ [it]) = (g', u')" by simp
    from Cons.IH [OF this Cons.prems(2)] show ?thesis .
  next
    case (Some p)
    with Cons.prems have "place_issues emb doc its (setdefault_append p it g) u = (g', u')" by simp
    from Cons.IH [OF this groups_ok_setdefault_append [OF Cons.prems(2) Some]] show ?thesis .
  qed
qed

lemma place_issues_distinct:
  "place_issues emb doc its g u = (g', u') \<Longrightarrow> distinct (map fst g) \<Longrightarrow> distinct (map fst g')"
proof (induction its arbitrary: g u)
  case Nil
  then show ?case by simp
next
  case (Cons it its)
  show ?case
  proof (cases "resolve emb doc it")
    case None
    with Cons.prems have "place_issues emb doc its g (u @ [it]) = (g', u')" by simp
    from Cons.IH [OF this Cons.prems(2)] show ?thesis .
  next
    case (Some p)
    with Cons.prems have "place_issues emb doc its (setdefault_append p it g) u = (g', u')" by simp
    from Cons.IH [OF this distinct_setdefault_append [OF Cons.prems(2)]] show ?thesis .
  qed
qed

lemma groups_ok_resolve:
  "groups_ok emb doc g \<Longrightarrow> x \<in> set (anchored g) \<Longrightarrow> resolve emb doc x \<noteq> None"
  by (auto simp: groups_ok_def anchored_def list_all_iff)

lemma place_issues_partition:
  assumes "place_issues emb doc issues [] [] = (g, u)"
  shows "mset (anchored g) + mset u = mset issues"
    and "length (anchored g) + length u = length issues"
    and "set (anchored g) \<inter> set u = {}"
    and "u = filter (\<lambda>it. resolve emb doc it = None) issues"
    and "distinct (map fst g)"
    and "groups_ok emb doc g"
proof -
  from place_issues_mset [OF assms] show m: "mset (anchored g) + mset u = mset issues"
    by (simp add: anchored_def)
  from arg_cong [OF m, of size] show "length (anchored g) + length u = length issues"
    by simp
  from place_issues_unanchored [OF assms] show f: "u = filter (\<lambda>it. resolve emb doc it = None) issues"
    by simp
  from place_issues_groups_ok [OF assms] show ok: "groups_ok emb doc g"
    by (simp add: groups_ok_def)
  from place_issues_distinct [OF assms] show "distinct (map fst g)" by simp
  show "set (anchored g) \<inter> set u = {}"
  proof (rule ccontr)
    assume "set (anchored g) \<inter> set u \<noteq> {}"
    then obtain x where x: "x \<in> set (anchored g)" "x \<in> set u" by blast
    from groups_ok_resolve [OF ok x(1)] have "resolve emb doc x \<noteq> None" .
    moreover from x(2) f have "resolve emb doc x = None" by auto
    ultimately show False by simp
  qed
qed







lemma resolve_valid:
  assumes "resolve emb doc it = Some p" and "embed_contract emb"
  shows "p < length (paragraphs doc)"
proof (cases "find_paragraph_index doc (candidates_of it)")
  case (Some a)
  with assms(1) have "find_paragraph_index doc (candidates_of it) = Some p"
    by (simp add: resolve_def)
  then show ?thesis by (simp add: find_paragraph_index_Some)
next
  case None
  show ?thesis
  proof (cases "keyword_anchor doc it")
    case (Some a)
    with None assms(1) have "keyword_anchor doc it = Some p" by (simp add: resolve_def)
    then have "argmax_first (keyword_hits doc it) p" by (simp add: keyword_anchor_Some)
    then show ?thesis by (simp add: argmax_first_def keyword_hits_def)
  next
    case kn: None
    with None assms(1) have s: "semantic_anchor emb doc it = Some p" by (simp add: resolve_def)
    then have q: "issue it \<noteq> []" by (auto simp: semantic_anchor_def)
    from s q obtain par_emb where pe: "emb (map p_text (paragraphs doc)) = Some par_emb"
      by (auto simp: semantic_anchor_def Let_def split: if_splits option.splits)
    from s q pe obtain q_emb rest where qe: "emb [issue it] = Some (q_emb # rest)"
      by (auto simp: semantic_anchor_def Let_def split: if_splits option.splits list.splits)
    from pe assms(2) have len: "length par_emb = length (paragraphs doc)"
      by (auto simp: embed_contract_def)
    from s semantic_anchor_Some [OF q pe len qe]
    have "argmax_first (scores_of par_emb q_emb) p" by simp
    with len show ?thesis by (simp add: argmax_first_def scores_of_def)
  qed
qed

lemma py_index_mem: "x \<in> set xs \<Longrightarrow> \<exists>k. py_index xs x = Inr k \<and> k < length xs \<and> xs ! k = x"
  by (induction xs) auto

lemma py_pos_nat: "p < length xs \<Longrightarrow> py_pos xs (int p) = Inr p"
  by (simp add: py_pos_def)

lemma length_add_word_comment [simp]:
  "length (paragraphs (fst (add_word_comment doc k t))) = length (paragraphs doc)"
  by (simp add: add_word_comment_def Let_def split: option.splits)

lemma length_add_inline_comment [simp]:
  "length (paragraphs (add_inline_comment doc k t)) = length (paragraphs doc)"
  by (simp add: add_inline_comment_def Let_def)

lemma annotate_groups_no_llm:
  assumes "list_all (\<lambda>(p, vs). p < length (paragraphs doc) \<and> vs \<noteq> [] \<and> hd vs \<in> set issues) gs"
  shows "\<exists>doc'. annotate_groups rx Map.empty issues gs doc = Inr doc'
           \<and> length (paragraphs doc') = length (paragraphs doc)"
  using assms
proof (induction gs arbitrary: doc)
  case Nil
  then show ?case by simp
next
  case (Cons a gs)
  obtain p vs where a: "a = (p, vs)" by (cases a)
  with Cons.prems have p: "p < length (paragraphs doc)" and vs: "vs \<noteq> []" "hd vs \<in> set issues"
    and rest: "list_all (\<lambda>(p, vs). p < length (paragraphs doc) \<and> vs \<noteq> [] \<and> hd vs \<in> set issues) gs"
    by simp_all
  from vs obtain v vs' where v: "vs = v # vs'" "v \<in> set issues" by (cases vs) auto
  from py_index_mem [OF v(2)] obtain k where k: "py_index issues v = Inr k" by blast
  let ?d = "add_inline_comment (fst (add_word_comment doc p (note_text_of rx vs))) p (note_text_of rx vs)"
  have len: "length (paragraphs ?d) = length (paragraphs doc)" by simp
  from rest have "list_all (\<lambda>(p, vs). p < length (paragraphs ?d) \<and> vs \<noteq> [] \<and> hd vs \<in> set issues) gs"
    unfolding len .
  from Cons.IH [OF this] obtain doc' where
    d: "annotate_groups rx Map.empty issues gs ?d = Inr doc'"
       "length (paragraphs doc') = length (paragraphs ?d)" by blast
  from a v k p d show ?case
    by (simp add: py_pos_nat Let_def)
qed

lemma groups_ok_valid:
  assumes "groups_ok emb doc g" and "embed_contract emb" and "set (anchored g) \<subseteq> set issues"
  shows "list_all (\<lambda>(p, vs). p < length (paragraphs doc) \<and> vs \<noteq> [] \<and> hd vs \<in> set issues) g"
  unfolding list_all_iff
proof (intro ballI, clarify)
  fix p vs assume m: "(p, vs) \<in> set g"
  with assms(1) have ne: "vs \<noteq> []" and r: "\<forall>x \<in> set vs. resolve emb doc x = Some p"
    by (auto simp: groups_ok_def list_all_iff)
  from ne have hd: "hd vs \<in> set vs" by simp
  with r have "resolve emb doc (hd vs) = Some p" by blast
  from resolve_valid [OF this assms(2)] have "p < length (paragraphs doc)" .
  moreover from m hd have "hd vs \<in> set (anchored g)" by (force simp: anchored_def)
  with assms(3) have "hd vs \<in> set issues" by blast
  ultimately show "p < length (paragraphs doc) \<and> vs \<noteq> [] \<and> hd vs \<in> set issues"
    using ne by simp
qed

lemma llm_anchor_map_no_client: "llm_anchor_map None doc issues = Map.empty"
  by (simp add: llm_anchor_map_def)

lemma annotate_docx_unrefined:
  assumes "llm_anchor_map (llm e) doc issues = Map.empty" and "embed_contract (embed_texts e)"
  shows "\<exists>d. annotate_docx e original_path doc issues =
           (case snd (save_reviewed e original_path) of
              Inl err \<Rightarrow> Inl err
            | Inr out_path \<Rightarrow> Inr (out_path, d))"
proof -
  obtain g u where gu: "place_issues (embed_texts e) doc issues [] [] = (g, u)"
    by (cases "place_issues (embed_texts e) doc issues [] []")
  from place_issues_partition(1) [OF gu]
  have "set_mset (mset (anchored g) + mset u) = set_mset (mset issues)"
    by simp
  then have sub: "set (anchored g) \<subseteq> set issues" by auto
  from groups_ok_valid [OF place_issues_partition(6) [OF gu] assms(2) sub]
  have "list_all (\<lambda>(p, vs). p < length (paragraphs doc) \<and> vs \<noteq> [] \<and> hd vs \<in> set issues)
          (sort_key fst g)"
    by (simp add: list_all_iff)
  from annotate_groups_no_llm [OF this] obtain doc1 where
    "annotate_groups (re_search e) Map.empty issues (sort_key fst g) doc = Inr doc1" by blast
  with gu assms(1) show ?thesis
    by (auto simp: annotate_docx_def Let_def split: sum.splits)
qed





text \<open>
  C3. With an LLM client that maps issue 0 to paragraph 7 of a three-paragraph document,
  \<open>annotate_docx\<close> raises \<open>IndexError\<close> at \<open>doc.paragraphs[target_idx]\<close>: nothing is
  annotated and nothing is saved.
\<close>

theorem llm_refinement_out_of_range:
  "llm_anchor_map (llm ex_env_llm) ex_doc ex_issues 0 = Some 7
   \<and> length (paragraphs ex_doc) = 3
   \<and> annotate_docx ex_env_llm ''uploads/aoa.docx'' ex_doc ex_issues = Inl IndexError"
proof -
  have "llm_anchor_map (llm ex_env_llm) ex_doc ex_issues 0 = Some 7" by code_simp
  moreover have "length (paragraphs ex_doc) = 3" by (simp add: ex_doc_def)
  moreover have "annotate_docx ex_env_llm ''uploads/aoa.docx'' ex_doc ex_issues = Inl IndexError"
    by code_simp
  ultimately show ?thesis by blast
qed

subsection \<open>Comment ids\<close>


lemma comment_ids_Nil [simp]: "comment_ids [] = []"
  by (simp add: comment_ids_def)









lemma comments_part_add_inline [simp]:
  "comments_part (add_inline_comment doc k t) = comments_part doc"
  by (simp add: add_inline_comment_def Let_def)






subsection \<open>Saving the reviewed document\<close>



lemma save_reviewed_cases:
  "save_reviewed e p =
     (case save_doc e (reviewed_path e p) of
        None \<Rightarrow> ([reviewed_path e p], Inr (reviewed_path e p))
      | Some err \<Rightarrow>
          if err = PermissionError
          then (case save_doc e (unique_path e p) of
                  None \<Rightarrow> ([reviewed_path e p, unique_path e p], Inr (unique_path e p))
                | Some err2 \<Rightarrow> ([reviewed_path e p, unique_path e p], Inl err2))
          else ([reviewed_path e p], Inl err))"
  by (simp add: save_reviewed_def Let_def split: option.splits error.splits)


lemma save_reviewed_raised:
  "snd (save_reviewed e p) = Inl err \<Longrightarrow> save_doc e (last (fst (save_reviewed e p))) = Some err"
  by (auto simp: save_reviewed_cases split: option.splits if_splits)





subsection \<open>The retriever\<close>

lemma search_loop_acc:
  "search_loop r zs acc = Inr hs \<Longrightarrow>
     \<exists>new. hs = acc @ new \<and> list_all2 (from_offset r) new (served zs)"
proof (induction zs arbitrary: acc)
  case Nil
  then show ?case by (simp add: served_def)
next
  case (Cons z zs)
  obtain score idx where z: "z = (score, idx)" by (cases z)
  show ?case
  proof (cases "idx = - 1")
    case True
    with Cons.prems z have "search_loop r zs acc = Inr hs" by simp
    from Cons.IH [OF this] True z show ?thesis by (simp add: served_def)
  next
    case False
    with Cons.prems z obtain c where c: "py_nth (chunks r) idx = Inr c"
      by (cases "py_nth (chunks r) idx") auto
    with Cons.prems z False obtain m where m: "py_nth (meta r) idx = Inr m"
      by (cases "py_nth (meta r) idx") auto
    with Cons.prems z False c obtain h where h: "make_hit score c m = Inr h"
      by (cases "make_hit score c m") auto
    with Cons.prems z False c m have "search_loop r zs (acc @ [h]) = Inr hs" by simp
    from Cons.IH [OF this] obtain new where
      new: "hs = (acc @ [h]) @ new" "list_all2 (from_offset r) new (served zs)" by blast
    have "from_offset r h z" using z False c m h by (auto simp: from_offset_def)
    with new z False show ?thesis
      by (intro exI [of _ "h # new"]) (simp add: served_def)
  qed
qed

lemma py_nth_nat: "0 \<le> i \<Longrightarrow> nat i < length xs \<Longrightarrow> py_nth xs i = Inr (xs ! nat i)"
  by (simp add: py_nth_def py_pos_def)

lemma py_nth_nonneg: "0 \<le> i \<Longrightarrow> py_nth xs i = Inr x \<Longrightarrow> nat i < length xs \<and> x = xs ! nat i"
  by (auto simp: py_nth_def py_pos_def Let_def split: if_splits)

lemma search_loop_total:
  "list_all (slot_ok r) (map snd zs) \<Longrightarrow> \<exists>hs. search_loop r zs acc = Inr hs"
proof (induction zs arbitrary: acc)
  case Nil
  then show ?case by simp
next
  case (Cons z zs)
  obtain score idx where z: "z = (score, idx)" by (cases z)
  show ?case
  proof (cases "idx = - 1")
    case True
    with Cons z show ?thesis by simp
  next
    case False
    with Cons.prems z have ok: "0 \<le> idx" "nat idx < length (chunks r)" "nat idx < length (meta r)"
      "m_source_path (meta r ! nat idx) \<noteq> None" "m_chunk_index (meta r ! nat idx) \<noteq> None"
      by (simp_all add: slot_ok_def)
    from ok(4,5) obtain h where "make_hit score (chunks r ! nat idx) (meta r ! nat idx) = Inr h"
      by (auto simp: make_hit_def)
    moreover from Cons.prems have "list_all (slot_ok r) (map snd zs)" by simp
    from Cons.IH [OF this] obtain hs where "search_loop r zs (acc @ [h]) = Inr hs" by blast
    ultimately show ?thesis using z False ok by (simp add: py_nth_nat)
  qed
qed

lemma make_hit_fields:
  "make_hit s c m = Inr h \<Longrightarrow>
     h_chunk h = c \<and> h_score h = s \<and> h_source_url h = m_source_url m
     \<and> m_source_path m = Some (h_source_path h)
     \<and> (\<exists>ci. m_chunk_index m = Some ci
            \<and> h_ref_id h = basename (h_source_path h) @ ''#chunk-'' @ str_int ci)"
  unfolding make_hit_def
  by (cases "m_source_path m"; cases "m_chunk_index m") auto

lemma from_offset_same:
  assumes "from_offset r h (s, i)" and "0 \<le> i"
  shows "nat i < length (chunks r) \<and> nat i < length (meta r)
     \<and> make_hit s (chunks r ! nat i) (meta r ! nat i) = Inr h
     \<and> h_chunk h = chunks r ! nat i \<and> h_score h = s
     \<and> h_source_url h = m_source_url (meta r ! nat i)
     \<and> m_source_path (meta r ! nat i) = Some (h_source_path h)"
proof -
  from assms(1) obtain c m where
    c: "py_nth (chunks r) i = Inr c" and m: "py_nth (meta r) i = Inr m"
    and h: "make_hit s c m = Inr h"
    by (auto simp: from_offset_def)
  from py_nth_nonneg [OF assms(2) c] py_nth_nonneg [OF assms(2) m] h make_hit_fields [OF h]
  show ?thesis by simp
qed

lemma served_length: "length (served zs) \<le> length zs"
  by (simp add: served_def)

lemma search_result:
  assumes "search r emb q = Inr hs" and "emb [q] = Some q_vec"
    and "index r q_vec (top_k r) = (scores, idxs)"
  shows "list_all2 (from_offset r) hs (served (zip scores idxs))"
proof -
  from assms have "search_loop r (zip scores idxs) [] = Inr hs" by (simp add: search_def)
  from search_loop_acc [OF this] show ?thesis by simp
qed

lemma search_total:
  assumes "emb [q] = Some q_vec" and "index r q_vec (top_k r) = (scores, idxs)"
    and "list_all (slot_ok r) idxs"
  shows "\<exists>hs. search r emb q = Inr hs"
proof -
  have "set (map snd (zip scores idxs)) \<subseteq> set idxs" by (auto dest: set_zip_rightD)
  with assms(3) have "list_all (slot_ok r) (map snd (zip scores idxs))"
    unfolding list_all_iff by blast
  from search_loop_total [OF this, of "[]"] assms(1,2) show ?thesis by (simp add: search_def)
qed

lemma from_offset_placeholder: "\<not> from_offset r h (s, - 1)"
  by (simp add: from_offset_def)

text \<open>
  C10. The results of \<open>search\<close> correspond one to one, in order, to the slots of the index
  result whose index is not \<open>-1\<close>: each result is built from \<open>chunks[i]\<close> and \<open>meta[i]\<close> of
  its own slot, the same offset \<open>i\<close> of both arrays, and no result is built for a
  placeholder. So there are at most as many results as slots, hence at most \<open>top_k\<close> when
  the index returns at most \<open>top_k\<close> slots. When every slot is a placeholder or a valid
  offset whose metadata has its keys, \<open>search\<close> returns a list and does not raise.
\<close>

theorem search_skips_placeholders:
  "(search r emb q = Inr hs \<and> emb [q] = Some q_vec \<and> index r q_vec (top_k r) = (scores, idxs) \<longrightarrow>
       list_all2 (from_offset r) hs (served (zip scores idxs))
       \<and> length hs = length (served (zip scores idxs))
       \<and> length hs \<le> length idxs
       \<and> (length idxs \<le> top_k r \<longrightarrow> length hs \<le> top_k r))
   \<and> (emb [q] = Some q_vec \<and> index r q_vec (top_k r) = (scores, idxs)
        \<and> list_all (slot_ok r) idxs \<longrightarrow>
        (\<exists>hs. search r emb q = Inr hs))
   \<and> (from_offset r h (s, i) \<and> 0 \<le> i \<longrightarrow>
        nat i < length (chunks r) \<and> nat i < length (meta r)
        \<and> make_hit s (chunks r ! nat i) (meta r ! nat i) = Inr h
        \<and> h_chunk h = chunks r ! nat i \<and> h_score h = s
        \<and> h_source_url h = m_source_url (meta r ! nat i)
        \<and> m_source_path (meta r ! nat i) = Some (h_source_path h))
   \<and> \<not> from_offset r h (s, - 1)"
proof (intro conjI impI)
  assume a: "search r emb q = Inr hs \<and> emb [q] = Some q_vec \<and> index r q_vec (top_k r) = (scores, idxs)"
  then show l: "list_all2 (from_offset r) hs (served (zip scores idxs))"
    using search_result [of r emb q hs q_vec scores idxs] by blast
  then show n: "length hs = length (served (zip scores idxs))"
    by (rule list_all2_lengthD)
  have "length (served (zip scores idxs)) \<le> length (zip scores idxs)" by (rule served_length)
  with n show m: "length hs \<le> length idxs" by simp
  show "length hs \<le> top_k r" if "length idxs \<le> top_k r" using that m by simp
next
  assume "emb [q] = Some q_vec \<and> index r q_vec (top_k r) = (scores, idxs) \<and> list_all (slot_ok r) idxs"
  then show "\<exists>hs. search r emb q = Inr hs"
    using search_total [of emb q q_vec r scores idxs] by blast
next
  assume a: "from_offset r h (s, i) \<and> 0 \<le> i"
  then have f: "from_offset r h (s, i)" and i: "0 \<le> i" by simp_all
  from from_offset_same [OF f i]
  show "nat i < length (chunks r)" and "nat i < length (meta r)"
    and "make_hit s (chunks r ! nat i) (meta r ! nat i) = Inr h"
    and "h_chunk h = chunks r ! nat i" and "h_score h = s"
    and "h_source_url h = m_source_url (meta r ! nat i)"
    and "m_source_path (meta r ! nat i) = Some (h_source_path h)" by simp_all
next
  show "\<not> from_offset r h (s, - 1)" by (rule from_offset_placeholder)
qed

theorem search_skips_placeholders_witness:
  "ex_embed [''forum''] = Some [[1 / 10]]
   \<and> index ex_retriever [[1 / 10]] (top_k ex_retriever) = ([9 / 10, 1 / 2, 1 / 4, - 1], [2, 0, 1, - 1])
   \<and> list_all (slot_ok ex_retriever) [2, 0, 1, - 1]
   \<and> served (zip [9 / 10, 1 / 2, 1 / 4, - 1] [2, 0, 1, - 1]) = [(9 / 10, 2), (1 / 2, 0), (1 / 4, 1)]
   \<and> (\<exists>hs. search ex_retriever ex_embed ''forum'' = Inr hs
         \<and> list_all2 (from_offset ex_retriever) hs [(9 / 10, 2), (1 / 2, 0), (1 / 4, 1)]
         \<and> length hs = 3 \<and> length hs \<le> top_k ex_retriever
         \<and> h_chunk (hd hs) = chunks ex_retriever ! 2)"
proof -
  have e: "ex_embed [''forum''] = Some [[1 / 10]]" by code_simp
  have x: "index ex_retriever [[1 / 10]] (top_k ex_retriever) = ([9 / 10, 1 / 2, 1 / 4, - 1], [2, 0, 1, - 1])"
    by (simp add: ex_retriever_def)
  have ok: "list_all (slot_ok ex_retriever) [2, 0, 1, - 1]"
    by (simp add: slot_ok_def ex_retriever_def ex_meta_def)
  have sv: "served (zip [9 / 10, 1 / 2, 1 / 4, - 1] [2, 0, 1, - 1]) = [(9 / 10, 2), (1 / 2, 0), (1 / 4, 1 :: int)]"
    by (simp add: served_def)
  have k: "length [2, 0, 1, - 1 :: int] \<le> top_k ex_retriever" by (simp add: ex_retriever_def)
  note t = search_skips_placeholders [of ex_retriever ex_embed "''forum''" _ "[[1 / 10]]"
      "[9 / 10, 1 / 2, 1 / 4, - 1]" "[2, 0, 1, - 1]"]
  from t [THEN conjunct2, THEN conjunct1] e x ok
  obtain hs where hs: "search ex_retriever ex_embed ''forum'' = Inr hs" by blast
  from t [of hs, THEN conjunct1] hs e x k
  have l: "list_all2 (from_offset ex_retriever) hs (served (zip [9 / 10, 1 / 2, 1 / 4, - 1] [2, 0, 1, - 1]))"
    and n: "length hs = length (served (zip [9 / 10, 1 / 2, 1 / 4, - 1 :: real] [2, 0, 1, - 1 :: int]))"
    and m: "length hs \<le> top_k ex_retriever"
    by blast+
  from n have n3: "length hs = 3" unfolding sv by simp
  from l have l': "list_all2 (from_offset ex_retriever) hs [(9 / 10, 2), (1 / 2, 0), (1 / 4, 1)]"
    unfolding sv .
  from n3 obtain h0 rest where hd: "hs = h0 # rest" by (cases hs) auto
  with l' have "from_offset ex_retriever h0 (9 / 10, 2)" by simp
  with search_skips_placeholders [of ex_retriever _ _ _ _ _ _ h0 "9 / 10" 2,
      THEN conjunct2, THEN conjunct2, THEN conjunct1]
  have "h_chunk h0 = chunks ex_retriever ! 2" by simp
  with hd have c: "h_chunk (hd hs) = chunks ex_retriever ! 2" by simp
  from e x ok sv hs l' n3 m c show ?thesis by blast
qed

subsection \<open>Citation accumulation\<close>

lemma first_fresh_Some:
  "first_fresh hits used = Some h \<Longrightarrow> h \<in> set hits \<and> h_ref_id h \<noteq> [] \<and> h_ref_id h \<notin> used"
  by (induction hits) (auto split: if_splits)

lemma first_fresh_None:
  "first_fresh hits used = None \<longleftrightarrow> (\<forall>h \<in> set hits. h_ref_id h = [] \<or> h_ref_id h \<in> used)"
  by (induction hits) auto

lemma cite_fresh:
  "retrieve q = Inr hits \<Longrightarrow> first_fresh hits used = Some h \<Longrightarrow>
     cite retrieve used q = Inr ([evidence_of h], insert (h_ref_id h) used)"
  by (simp add: cite_def)

lemma cite_fallback:
  "retrieve q = Inr hits \<Longrightarrow> first_fresh hits used = None \<Longrightarrow>
     cite retrieve used q = Inr (case hits of [] \<Rightarrow> [] | h # _ \<Rightarrow> [evidence_of h], used)"
  by (simp add: cite_def split: list.splits)

lemma ref_id_evidence_of [simp]: "ref_id (evidence_of h) = h_ref_id h"
  by (simp add: evidence_of_def)

lemma fresh_run_distinct:
  "fresh_run retrieve used qs \<Longrightarrow>
     \<exists>evs used'. cite_seq retrieve used qs = Inr (evs, used')
        \<and> length evs = length qs
        \<and> list_all (\<lambda>ev. length ev = 1) evs
        \<and> distinct (map ref_id (concat evs))
        \<and> set (map ref_id (concat evs)) \<inter> used = {}
        \<and> used' = used \<union> set (map ref_id (concat evs))"
proof (induction qs arbitrary: used)
  case Nil
  then show ?case by simp
next
  case (Cons q qs)
  from Cons.prems obtain hits where hits: "retrieve q = Inr hits"
    by (cases "retrieve q") auto
  with Cons.prems obtain h where h: "first_fresh hits used = Some h"
    by (cases "first_fresh hits used") auto
  with Cons.prems hits have "fresh_run retrieve (insert (h_ref_id h) used) qs" by simp
  from Cons.IH [OF this] obtain evs used' where
    e: "cite_seq retrieve (insert (h_ref_id h) used) qs = Inr (evs, used')"
       "length evs = length qs"
       "list_all (\<lambda>ev. length ev = 1) evs"
       "distinct (map ref_id (concat evs))"
       "set (map ref_id (concat evs)) \<inter> insert (h_ref_id h) used = {}"
       "used' = insert (h_ref_id h) used \<union> set (map ref_id (concat evs))"
    by blast
  from first_fresh_Some [OF h] have f: "h_ref_id h \<notin> used" by simp
  have "cite_seq retrieve used (q # qs) = Inr ([evidence_of h] # evs, used')"
    using cite_fresh [of retrieve q hits used h] hits h e(1) by simp
  moreover have "distinct (map ref_id (concat ([evidence_of h] # evs)))"
    using e(4,5) by auto
  moreover have "set (map ref_id (concat ([evidence_of h] # evs))) \<inter> used = {}"
    using e(5) f by auto
  moreover have "used' = used \<union> set (map ref_id (concat ([evidence_of h] # evs)))"
    using e(6) by auto
  ultimately show ?case using e(2,3) by simp
qed

lemma heuristic_issues_cite_seq:
  "rel_sum (=) (\<lambda>issues r. map evidence issues = fst r)
     (heuristic_issues f d txt retrieve) (cite_seq retrieve {} (queries_of txt))"
  unfolding heuristic_issues_def queries_of_def Let_def
  by (cases "flags_jurisdiction (lower txt)"; cases "flags_signature (lower txt)";
      cases "flags_adgm (lower txt)")
     (auto simp: new_issue_def split: sum.splits prod.splits)

lemma heuristic_issues_fresh:
  assumes "fresh_run retrieve {} (queries_of txt)"
  shows "\<exists>issues. heuristic_issues f d txt retrieve = Inr issues
           \<and> length issues = length (queries_of txt)
           \<and> distinct (attached_refs issues)"
proof -
  from fresh_run_distinct [OF assms] obtain evs used' where
    e: "cite_seq retrieve {} (queries_of txt) = Inr (evs, used')"
       "length evs = length (queries_of txt)"
       "distinct (map ref_id (concat evs))" by blast
  from heuristic_issues_cite_seq [of f d "txt" retrieve] e(1)
  obtain issues where i: "heuristic_issues f d txt retrieve = Inr issues" "map evidence issues = evs"
    by (cases "heuristic_issues f d txt retrieve") auto
  from i(2) e(2) have "length issues = length (queries_of txt)" by auto
  with i e(3) show ?thesis by (auto simp: attached_refs_def)
qed

text \<open>
  C4, as amended. A call of \<open>cite\<close> that finds a hit with a non-empty reference id not
  yet used attaches that hit and marks its id used. A call that finds none (every hit is
  empty-named or already used) falls back to the first hit, whose id may have been
  attached before, and leaves the used set as it is. In a run of calls in which every call
  finds a fresh hit, each call attaches one evidence item, and the attached reference ids
  are pairwise distinct and disjoint from the ids used before the run; the issues
  \<open>_heuristic_issues\<close> returns carry the evidence of such a run over the queries of the
  text, starting from no used id.
\<close>

theorem cite_dedup:
  "(retrieve q = Inr hits \<and> first_fresh hits used = Some h \<longrightarrow>
       cite retrieve used q = Inr ([evidence_of h], insert (h_ref_id h) used)
       \<and> h \<in> set hits \<and> h_ref_id h \<noteq> [] \<and> h_ref_id h \<notin> used)
   \<and> (retrieve q = Inr hits \<and> first_fresh hits used = None \<longrightarrow>
        cite retrieve used q = Inr (case hits of [] \<Rightarrow> [] | h # _ \<Rightarrow> [evidence_of h], used))
   \<and> (first_fresh hits used = None \<longleftrightarrow>
        (\<forall>h \<in> set hits. h_ref_id h = [] \<or> h_ref_id h \<in> used))
   \<and> (fresh_run retrieve used qs \<longrightarrow>
        (\<exists>evs used'. cite_seq retrieve used qs = Inr (evs, used')
           \<and> length evs = length qs
           \<and> list_all (\<lambda>ev. length ev = 1) evs
           \<and> distinct (map ref_id (concat evs))
           \<and> set (map ref_id (concat evs)) \<inter> used = {}
           \<and> used' = used \<union> set (map ref_id (concat evs))))
   \<and> (heuristic_issues f d txt retrieve = Inr issues \<longrightarrow>
        (\<exists>used'. cite_seq retrieve {} (queries_of txt) = Inr (map evidence issues, used')))
   \<and> (fresh_run retrieve {} (queries_of txt) \<longrightarrow>
        (\<exists>issues. heuristic_issues f d txt retrieve = Inr issues
           \<and> length issues = length (queries_of txt)
           \<and> distinct (attached_refs issues)))"
proof (intro conjI impI)
  assume a: "retrieve q = Inr hits \<and> first_fresh hits used = Some h"
  then show "cite retrieve used q = Inr ([evidence_of h], insert (h_ref_id h) used)"
    by (simp add: cite_def)
  from a first_fresh_Some [of hits used h]
  show "h \<in> set hits" and "h_ref_id h \<noteq> []" and "h_ref_id h \<notin> used" by simp_all
next
  assume "retrieve q = Inr hits \<and> first_fresh hits used = None"
  then show "cite retrieve used q = Inr (case hits of [] \<Rightarrow> [] | h # _ \<Rightarrow> [evidence_of h], used)"
    by (simp add: cite_def split: list.splits)
next
  show "first_fresh hits used = None \<longleftrightarrow> (\<forall>h \<in> set hits. h_ref_id h = [] \<or> h_ref_id h \<in> used)"
    by (rule first_fresh_None)
next
  assume "fresh_run retrieve used qs"
  then show "\<exists>evs used'. cite_seq retrieve used qs = Inr (evs, used')
           \<and> length evs = length qs
           \<and> list_all (\<lambda>ev. length ev = 1) evs
           \<and> distinct (map ref_id (concat evs))
           \<and> set (map ref_id (concat evs)) \<inter> used = {}
           \<and> used' = used \<union> set (map ref_id (concat evs))"
    by (rule fresh_run_distinct)
next
  assume "heuristic_issues f d txt retrieve = Inr issues"
  with heuristic_issues_cite_seq [of f d "txt" retrieve]
  show "\<exists>used'. cite_seq retrieve {} (queries_of txt) = Inr (map evidence issues, used')"
    by (cases "cite_seq retrieve {} (queries_of txt)") auto
next
  assume "fresh_run retrieve {} (queries_of txt)"
  then show "\<exists>issues. heuristic_issues f d txt retrieve = Inr issues
           \<and> length issues = length (queries_of txt)
           \<and> distinct (attached_refs issues)"
    by (rule heuristic_issues_fresh)
qed

theorem cite_dedup_witness:
  "search ex_single ex_embed q_jurisdiction = Inr [ex_hit0]
   \<and> cite (search ex_single ex_embed) {} q_jurisdiction
       = Inr ([evidence_of ex_hit0], {''regs.txt#chunk-0''})
   \<and> first_fresh [ex_hit0] {''regs.txt#chunk-0''} = None
   \<and> cite (search ex_single ex_embed) {''regs.txt#chunk-0''} q_jurisdiction
       = Inr ([evidence_of ex_hit0], {''regs.txt#chunk-0''})
   \<and> fresh_run (search ex_retriever ex_embed) {} (queries_of ex_text)
   \<and> length (queries_of ex_text) = 3
   \<and> (\<exists>evs used'. cite_seq (search ex_retriever ex_embed) {} (queries_of ex_text) = Inr (evs, used')
         \<and> length evs = 3 \<and> distinct (map ref_id (concat evs)))
   \<and> (\<exists>issues used'. heuristic_issues ''aoa.docx'' ''AoA'' ex_text (search ex_retriever ex_embed) = Inr issues
         \<and> length issues = 3 \<and> distinct (attached_refs issues)
         \<and> cite_seq (search ex_retriever ex_embed) {} (queries_of ex_text)
             = Inr (map evidence issues, used'))
   \<and> refs_of_result (heuristic_issues ''aoa.docx'' ''AoA'' ex_text (search ex_retriever ex_embed))
       = [''regs.txt#chunk-2'', ''regs.txt#chunk-0'', ''regs.txt#chunk-1'']"
proof -
  have s: "search ex_single ex_embed q_jurisdiction = Inr [ex_hit0]" by code_simp
  have f1: "first_fresh [ex_hit0] {} = Some ex_hit0" by code_simp
  have f2: "\<forall>h \<in> set [ex_hit0]. h_ref_id h = [] \<or> h_ref_id h \<in> {''regs.txt#chunk-0''}"
    by (simp add: ex_hit0_def)
  have r0: "h_ref_id ex_hit0 = ''regs.txt#chunk-0''" by (simp add: ex_hit0_def)
  have a: "fresh_run (search ex_retriever ex_embed) {} (queries_of ex_text)" by code_simp
  have b: "length (queries_of ex_text) = 3" by code_simp
  have c: "refs_of_result (heuristic_issues ''aoa.docx'' ''AoA'' ex_text (search ex_retriever ex_embed))
       = [''regs.txt#chunk-2'', ''regs.txt#chunk-0'', ''regs.txt#chunk-1'']" by code_simp
  note t1 = cite_dedup [of "search ex_single ex_embed" q_jurisdiction "[ex_hit0]" "{}" ex_hit0]
  note t2 = cite_dedup [of "search ex_single ex_embed" q_jurisdiction "[ex_hit0]"
      "{''regs.txt#chunk-0''}"]
  note t3 = cite_dedup [of "search ex_retriever ex_embed" _ _ "{}" _ "queries_of ex_text"
      "''aoa.docx''" "''AoA''" ex_text]
  from t1 [THEN conjunct1] s f1
  have c1: "cite (search ex_single ex_embed) {} q_jurisdiction
       = Inr ([evidence_of ex_hit0], {''regs.txt#chunk-0''})" by (simp add: r0)
  from t2 [THEN conjunct2, THEN conjunct2, THEN conjunct1] f2
  have n: "first_fresh [ex_hit0] {''regs.txt#chunk-0''} = None" by blast
  with t2 [THEN conjunct2, THEN conjunct1] s
  have c2: "cite (search ex_single ex_embed) {''regs.txt#chunk-0''} q_jurisdiction
       = Inr ([evidence_of ex_hit0], {''regs.txt#chunk-0''})" by simp
  from t3 [THEN conjunct2, THEN conjunct2, THEN conjunct2, THEN conjunct1] a b
  have q: "\<exists>evs used'. cite_seq (search ex_retriever ex_embed) {} (queries_of ex_text) = Inr (evs, used')
         \<and> length evs = 3 \<and> distinct (map ref_id (concat evs))" by auto
  from t3 [THEN conjunct2, THEN conjunct2, THEN conjunct2, THEN conjunct2, THEN conjunct2] a b
  obtain issues where i: "heuristic_issues ''aoa.docx'' ''AoA'' ex_text (search ex_retriever ex_embed) = Inr issues"
    "length issues = 3" "distinct (attached_refs issues)" by auto
  from cite_dedup [of "search ex_retriever ex_embed" _ _ "{}" _ _ "''aoa.docx''" "''AoA''" ex_text issues,
      THEN conjunct2, THEN conjunct2, THEN conjunct2, THEN conjunct2, THEN conjunct1] i(1)
  obtain used' where "cite_seq (search ex_retriever ex_embed) {} (queries_of ex_text)
             = Inr (map evidence issues, used')" by blast
  with i have u: "\<exists>issues used'. heuristic_issues ''aoa.docx'' ''AoA'' ex_text (search ex_retriever ex_embed) = Inr issues
         \<and> length issues = 3 \<and> distinct (attached_refs issues)
         \<and> cite_seq (search ex_retriever ex_embed) {} (queries_of ex_text)
             = Inr (map evidence issues, used')" by blast
  from s c1 n c2 a b q u c show ?thesis by blast
qed

text \<open>
  C4 as stated fails when a corpus has a single chunk: every retrieval returns that chunk,
  the second and third calls of \<open>cite\<close> take the fallback, and the same reference id is
  attached to all three issues.
\<close>

theorem cite_dedup_counterexample:
  "refs_of_result (heuristic_issues ''aoa.docx'' ''AoA'' ex_text (search ex_single ex_embed))
     = [''regs.txt#chunk-0'', ''regs.txt#chunk-0'', ''regs.txt#chunk-0'']
   \<and> \<not> distinct
        (refs_of_result (heuristic_issues ''aoa.docx'' ''AoA'' ex_text (search ex_single ex_embed)))"
proof -
  have "refs_of_result (heuristic_issues ''aoa.docx'' ''AoA'' ex_text (search ex_single ex_embed))
     = [''regs.txt#chunk-0'', ''regs.txt#chunk-0'', ''regs.txt#chunk-0'']" by code_simp
  then show ?thesis by simp
qed

subsection \<open>Constructing the retriever\<close>

lemma retriever_init_IndexNotFound:
  "retriever_init d k = Inl IndexNotFound \<longleftrightarrow>
     \<not> (exists_file (index_faiss d) \<and> exists_file (chunks_json d))"
  by (auto simp: retriever_init_def exists_file_def split: stored.splits)

lemma retriever_init_loaded:
  "index_faiss d = Content ix \<Longrightarrow> chunks_json d = Content cs \<Longrightarrow> meta_json d = Content ms \<Longrightarrow>
     retriever_init d k = Inr \<lparr>index = ix, chunks = cs, meta = ms, top_k = k\<rparr>"
  by (simp add: retriever_init_def exists_file_def)

lemma check_compliance_propagates:
  "retriever_init d 4 = Inl e \<Longrightarrow> check_compliance d emb llm_pass f n txt = Inl e"
  by (simp add: check_compliance_def)

lemma search_never_IndexNotFound: "search r emb q \<noteq> Inl IndexNotFound"
proof -
  have loop: "search_loop r zs acc \<noteq> Inl IndexNotFound" for zs acc
  proof (induction zs arbitrary: acc)
    case Nil
    then show ?case by simp
  next
    case (Cons z zs)
    obtain s i where z: "z = (s, i)" by (cases z)
    show ?case
      using Cons.IH z
      by (auto simp: py_nth_def py_pos_def make_hit_def Let_def split: sum.splits option.splits if_splits)
  qed
  then show ?thesis
    by (auto simp: search_def split: option.splits prod.splits)
qed

text \<open>
  C9. In an index directory that holds \<open>index.faiss\<close> and \<open>chunks.json\<close> but not
  \<open>meta.json\<close>, the constructor passes its existence check and raises
  \<open>FileNotFoundError\<close> when it opens \<open>meta.json\<close>, not the index-not-found error;
  \<open>check_compliance\<close> passes that error on.
\<close>

theorem retriever_init_without_meta:
  "exists_file (index_faiss ex_dir_no_meta)
   \<and> exists_file (chunks_json ex_dir_no_meta)
   \<and> \<not> exists_file (meta_json ex_dir_no_meta)
   \<and> retriever_init ex_dir_no_meta 4 = Inl FileNotFoundError
   \<and> check_compliance ex_dir_no_meta ex_embed None ''aoa.docx'' ''AoA'' ex_text = Inl FileNotFoundError"
  by (simp add: ex_dir_no_meta_def exists_file_def retriever_init_def check_compliance_def)

subsection \<open>The refinement pass where it is silent, and the index check\<close>

lemma paths_llm:
  "reviewed_path (e\<lparr>llm := x\<rparr>) p = reviewed_path e p"
  "unique_path (e\<lparr>llm := x\<rparr>) p = unique_path e p"
  by (simp_all add: reviewed_path_def unique_path_def)

lemma save_reviewed_llm: "save_reviewed (e\<lparr>llm := x\<rparr>) p = save_reviewed e p"
  by (simp add: save_reviewed_cases paths_llm split: option.splits)

lemma annotate_docx_llm_only:
  "llm_anchor_map (llm e) doc issues = Map.empty \<Longrightarrow>
     annotate_docx e p doc issues = annotate_docx (e\<lparr>llm := None\<rparr>) p doc issues"
  by (simp add: annotate_docx_def llm_anchor_map_no_client save_reviewed_llm Let_def
      split: prod.splits sum.splits)

text \<open>
  X1. The refinement pass is advisory where it stays silent or proposes a paragraph of
  the document. Its map is empty when no client is configured, when there are no issues
  and when the client's call raises; with an empty map \<open>annotate_docx\<close> does what it does
  without a client, annotating every group at its per-issue paragraph and ending with the
  outcome of the write. One step of the annotation loop places the note of a group at the
  paragraph the map gives for the group's first issue when there is one, at the group's
  own paragraph otherwise, and raises when the paragraph proposed is not one of the
  document.
\<close>

theorem refinement_advisory:
  "(llm e = None \<longrightarrow> llm_anchor_map (llm e) doc issues = Map.empty)
   \<and> (issues = [] \<longrightarrow> llm_anchor_map (llm e) doc issues = Map.empty)
   \<and> (llm e = Some client
        \<and> client (digest 0 (paragraphs doc) [])
             (map (\<lambda>(i, it). (i, issue it, section_label it)) (enumerate 0 issues)) = None \<longrightarrow>
        llm_anchor_map (llm e) doc issues = Map.empty)
   \<and> (llm_anchor_map (llm e) doc issues = Map.empty \<longrightarrow>
        annotate_docx e p doc issues = annotate_docx (e\<lparr>llm := None\<rparr>) p doc issues)
   \<and> (llm_anchor_map (llm e) doc issues = Map.empty \<and> embed_contract (embed_texts e) \<longrightarrow>
        (\<exists>d. annotate_docx e p doc issues =
           (case snd (save_reviewed e p) of Inl err \<Rightarrow> Inl err | Inr q \<Rightarrow> Inr (q, d))))
   \<and> (py_index issues first = Inr key \<and> m (int key) = Some t \<and> py_pos (paragraphs doc) t = Inr k \<longrightarrow>
        annotate_groups rx m issues ((p_idx, first # rest) # gs) doc
          = annotate_groups rx m issues gs
              (add_inline_comment (fst (add_word_comment doc k (note_text_of rx (first # rest)))) k
                 (note_text_of rx (first # rest))))
   \<and> (py_index issues first = Inr key \<and> m (int key) = None \<and> p_idx < length (paragraphs doc) \<longrightarrow>
        annotate_groups rx m issues ((p_idx, first # rest) # gs) doc
          = annotate_groups rx m issues gs
              (add_inline_comment (fst (add_word_comment doc p_idx (note_text_of rx (first # rest)))) p_idx
                 (note_text_of rx (first # rest))))
   \<and> (py_index issues first = Inr key \<and> m (int key) = Some t \<and> py_pos (paragraphs doc) t = Inl err \<longrightarrow>
        annotate_groups rx m issues ((p_idx, first # rest) # gs) doc = Inl err)"
proof (intro conjI impI)
  show "llm_anchor_map (llm e) doc issues = Map.empty" if "llm e = None"
    using that by (simp add: llm_anchor_map_def)
  show "llm_anchor_map (llm e) doc issues = Map.empty" if "issues = []"
    using that by (simp add: llm_anchor_map_def split: option.splits)
  show "llm_anchor_map (llm e) doc issues = Map.empty"
    if "llm e = Some client
        \<and> client (digest 0 (paragraphs doc) [])
             (map (\<lambda>(i, it). (i, issue it, section_label it)) (enumerate 0 issues)) = None"
    using that by (simp add: llm_anchor_map_def Let_def)
  show "annotate_docx e p doc issues = annotate_docx (e\<lparr>llm := None\<rparr>) p doc issues"
    if "llm_anchor_map (llm e) doc issues = Map.empty"
    using that by (rule annotate_docx_llm_only)
  show "\<exists>d. annotate_docx e p doc issues =
           (case snd (save_reviewed e p) of Inl err \<Rightarrow> Inl err | Inr q \<Rightarrow> Inr (q, d))"
    if "llm_anchor_map (llm e) doc issues = Map.empty \<and> embed_contract (embed_texts e)"
    using that annotate_docx_unrefined [of e doc issues p] by blast
  show "annotate_groups rx m issues ((p_idx, first # rest) # gs) doc
          = annotate_groups rx m issues gs
              (add_inline_comment (fst (add_word_comment doc k (note_text_of rx (first # rest)))) k
                 (note_text_of rx (first # rest)))"
    if "py_index issues first = Inr key \<and> m (int key) = Some t \<and> py_pos (paragraphs doc) t = Inr k"
    using that by (simp add: Let_def)
  show "annotate_groups rx m issues ((p_idx, first # rest) # gs) doc
          = annotate_groups rx m issues gs
              (add_inline_comment (fst (add_word_comment doc p_idx (note_text_of rx (first # rest)))) p_idx
                 (note_text_of rx (first # rest)))"
    if "py_index issues first = Inr key \<and> m (int key) = None \<and> p_idx < length (paragraphs doc)"
    using that by (simp add: Let_def py_pos_nat)
  show "annotate_groups rx m issues ((p_idx, first # rest) # gs) doc = Inl err"
    if "py_index issues first = Inr key \<and> m (int key) = Some t \<and> py_pos (paragraphs doc) t = Inl err"
    using that by (simp add: Let_def)
qed

theorem refinement_advisory_witness:
  "llm_anchor_map (llm ex_env) ex_doc ex_issues = Map.empty
   \<and> llm_anchor_map (llm ex_env_llm) ex_doc [] = Map.empty
   \<and> annotate_docx ex_env ''uploads/aoa.docx'' ex_doc ex_issues
       = annotate_docx (ex_env\<lparr>llm := None\<rparr>) ''uploads/aoa.docx'' ex_doc ex_issues
   \<and> (\<exists>d. annotate_docx ex_env ''uploads/aoa.docx'' ex_doc ex_issues
             = Inr (''data/outputs/aoa_reviewed.docx'', d))
   \<and> py_index ex_issues ex_jurisdiction = Inr 0
   \<and> py_pos (paragraphs ex_doc) 2 = Inr 2
   \<and> annotate_groups (re_search ex_env) ex_map ex_issues [(1, [ex_jurisdiction, ex_quoted])] ex_doc
       = Inr (add_inline_comment
                (fst (add_word_comment ex_doc 2
                   (note_text_of (re_search ex_env) [ex_jurisdiction, ex_quoted]))) 2
                (note_text_of (re_search ex_env) [ex_jurisdiction, ex_quoted]))
   \<and> annotate_groups (re_search ex_env) Map.empty ex_issues [(1, [ex_jurisdiction, ex_quoted])] ex_doc
       = Inr (add_inline_comment
                (fst (add_word_comment ex_doc 1
                   (note_text_of (re_search ex_env) [ex_jurisdiction, ex_quoted]))) 1
                (note_text_of (re_search ex_env) [ex_jurisdiction, ex_quoted]))
   \<and> py_pos (paragraphs ex_doc) 7 = Inl IndexError
   \<and> annotate_groups (re_search ex_env) [0 \<mapsto> 7] ex_issues [(1, [ex_jurisdiction, ex_quoted])] ex_doc
       = Inl IndexError"
proof -
  have n: "llm ex_env = None" by (simp add: ex_env_def)
  have c: "embed_contract (embed_texts ex_env)"
    by (auto simp: embed_contract_def ex_env_def ex_embed_def)
  have k: "py_index ex_issues ex_jurisdiction = Inr 0" by (simp add: ex_issues_def)
  have p2: "py_pos (paragraphs ex_doc) 2 = Inr 2" by code_simp
  have p7: "py_pos (paragraphs ex_doc) 7 = Inl IndexError" by code_simp
  have l3: "(1::nat) < length (paragraphs ex_doc)" by (simp add: ex_doc_def)
  have m2: "ex_map (int 0) = Some 2" by (simp add: ex_map_def)
  have m7: "[0 \<mapsto> 7 :: int] (int 0) = Some 7" by simp
  have m0: "(Map.empty :: int \<rightharpoonup> int) (int 0) = None" by simp
  have sv: "snd (save_reviewed ex_env ''uploads/aoa.docx'') = Inr ''data/outputs/aoa_reviewed.docx''"
    by code_simp
  note t = refinement_advisory [where e = ex_env and doc = ex_doc and issues = ex_issues
      and p = "''uploads/aoa.docx''"]
  from t [THEN conjunct1] n
  have a1: "llm_anchor_map (llm ex_env) ex_doc ex_issues = Map.empty" by blast
  from refinement_advisory [where e = ex_env_llm and doc = ex_doc and issues = "[]",
      THEN conjunct2, THEN conjunct1]
  have a2: "llm_anchor_map (llm ex_env_llm) ex_doc [] = Map.empty" by blast
  from t [THEN conjunct2, THEN conjunct2, THEN conjunct2, THEN conjunct1] a1
  have a3: "annotate_docx ex_env ''uploads/aoa.docx'' ex_doc ex_issues
       = annotate_docx (ex_env\<lparr>llm := None\<rparr>) ''uploads/aoa.docx'' ex_doc ex_issues" by blast
  from t [THEN conjunct2, THEN conjunct2, THEN conjunct2, THEN conjunct2, THEN conjunct1] a1 c
  have a4: "\<exists>d. annotate_docx ex_env ''uploads/aoa.docx'' ex_doc ex_issues
             = Inr (''data/outputs/aoa_reviewed.docx'', d)" unfolding sv by simp
  note u = refinement_advisory [where doc = ex_doc and issues = ex_issues
      and first = ex_jurisdiction and key = 0 and rx = "re_search ex_env" and p_idx = 1
      and rest = "[ex_quoted]" and gs = "[]"]
  from u [where m = ex_map and t = 2 and k = 2, THEN conjunct2, THEN conjunct2, THEN conjunct2, THEN conjunct2,
      THEN conjunct2, THEN conjunct1] k m2 p2
  have a5: "annotate_groups (re_search ex_env) ex_map ex_issues [(1, [ex_jurisdiction, ex_quoted])] ex_doc
       = Inr (add_inline_comment
                (fst (add_word_comment ex_doc 2
                   (note_text_of (re_search ex_env) [ex_jurisdiction, ex_quoted]))) 2
                (note_text_of (re_search ex_env) [ex_jurisdiction, ex_quoted]))" by simp
  from u [where m = Map.empty, THEN conjunct2, THEN conjunct2, THEN conjunct2, THEN conjunct2,
      THEN conjunct2, THEN conjunct2, THEN conjunct1] k m0 l3
  have a6: "annotate_groups (re_search ex_env) Map.empty ex_issues [(1, [ex_jurisdiction, ex_quoted])] ex_doc
       = Inr (add_inline_comment
                (fst (add_word_comment ex_doc 1
                   (note_text_of (re_search ex_env) [ex_jurisdiction, ex_quoted]))) 1
                (note_text_of (re_search ex_env) [ex_jurisdiction, ex_quoted]))" by simp
  from u [where m = "[0 \<mapsto> 7]" and t = 7 and err = IndexError, THEN conjunct2, THEN conjunct2, THEN conjunct2, THEN conjunct2,
      THEN conjunct2, THEN conjunct2, THEN conjunct2] k m7 p7
  have a7: "annotate_groups (re_search ex_env) [0 \<mapsto> 7] ex_issues [(1, [ex_jurisdiction, ex_quoted])] ex_doc
       = Inl IndexError" by simp
  from a1 a2 a3 a4 k p2 a5 a6 p7 a7 show ?thesis by blast
qed

text \<open>
  X2. The constructor of the retriever raises its index-not-found error exactly when
  \<open>index.faiss\<close> or \<open>chunks.json\<close> is absent. With the three files present and loadable
  it builds the retriever from them. \<open>check_compliance\<close> constructs the retriever first and
  passes any error of the constructor on; \<open>search\<close> never raises the index-not-found error.
\<close>

theorem retriever_index_check:
  "(retriever_init d k = Inl IndexNotFound \<longleftrightarrow>
      \<not> (exists_file (index_faiss d) \<and> exists_file (chunks_json d)))
   \<and> (index_faiss d = Content ix \<and> chunks_json d = Content cs \<and> meta_json d = Content ms \<longrightarrow>
        retriever_init d k = Inr \<lparr>index = ix, chunks = cs, meta = ms, top_k = k\<rparr>)
   \<and> (retriever_init d 4 = Inl err \<longrightarrow> check_compliance d emb llm_pass f n body = Inl err)
   \<and> search r emb q \<noteq> Inl IndexNotFound"
proof (intro conjI impI)
  show "retriever_init d k = Inl IndexNotFound \<longleftrightarrow>
      \<not> (exists_file (index_faiss d) \<and> exists_file (chunks_json d))"
    by (rule retriever_init_IndexNotFound)
  show "retriever_init d k = Inr \<lparr>index = ix, chunks = cs, meta = ms, top_k = k\<rparr>"
    if "index_faiss d = Content ix \<and> chunks_json d = Content cs \<and> meta_json d = Content ms"
    using that by (simp add: retriever_init_loaded)
  show "check_compliance d emb llm_pass f n body = Inl err" if "retriever_init d 4 = Inl err"
    using that by (rule check_compliance_propagates)
  show "search r emb q \<noteq> Inl IndexNotFound" by (rule search_never_IndexNotFound)
qed

theorem retriever_index_check_witness:
  "\<not> (exists_file (index_faiss ex_dir_empty) \<and> exists_file (chunks_json ex_dir_empty))
   \<and> retriever_init ex_dir_empty 4 = Inl IndexNotFound
   \<and> check_compliance ex_dir_empty ex_embed None ''aoa.docx'' ''AoA'' ex_text = Inl IndexNotFound
   \<and> retriever_init ex_dir_built 4 = Inr ex_retriever"
proof -
  have a: "\<not> (exists_file (index_faiss ex_dir_empty) \<and> exists_file (chunks_json ex_dir_empty))"
    by (simp add: ex_dir_empty_def exists_file_def)
  note t = retriever_index_check [where d = ex_dir_empty and k = 4 and err = IndexNotFound
      and emb = ex_embed and llm_pass = None and f = "''aoa.docx''" and n = "''AoA''"
      and body = ex_text]
  from t [THEN conjunct1] a have b: "retriever_init ex_dir_empty 4 = Inl IndexNotFound" by blast
  with t [THEN conjunct2, THEN conjunct2, THEN conjunct1]
  have c: "check_compliance ex_dir_empty ex_embed None ''aoa.docx'' ''AoA'' ex_text = Inl IndexNotFound"
    by blast
  have "index_faiss ex_dir_built = Content (index ex_retriever)
      \<and> chunks_json ex_dir_built = Content (chunks ex_retriever)
      \<and> meta_json ex_dir_built = Content (meta ex_retriever)"
    by (simp add: ex_dir_built_def)
  with retriever_index_check [where d = ex_dir_built and k = 4 and ix = "index ex_retriever"
      and cs = "chunks ex_retriever" and ms = "meta ex_retriever", THEN conjunct2, THEN conjunct1]
  have "retriever_init ex_dir_built 4
      = Inr \<lparr>index = index ex_retriever, chunks = chunks ex_retriever, meta = meta ex_retriever,
             top_k = 4\<rparr>" by blast
  moreover have "\<lparr>index = index ex_retriever, chunks = chunks ex_retriever, meta = meta ex_retriever,
             top_k = 4\<rparr> = ex_retriever" by (simp add: ex_retriever_def)
  ultimately have d: "retriever_init ex_dir_built 4 = Inr ex_retriever" by simp
  from a b c d show ?thesis by blast
qed

end
